theory Spec2Isabelle
  imports Complex_Main
begin

section \<open>Go's float64: IEEE 754 binary64 values and operations\<close>

text \<open>
  The program computes on \<^verbatim>\<open>float64\<close>. A value is a finite real, an infinity or NaN;
  a finite value is representable when rounding leaves it unchanged (\<open>is_f64\<close>).
  The sign of zero is not modelled: the program never divides a non-zero value by a
  zero it computed, and comparisons treat both zeros alike. Every arithmetic operation
  rounds its exact result to the nearest representable value, ties to even, with
  gradual underflow (subnormals) and overflow to an infinity.
\<close>

datatype f64 = Fin real | PInf | NInf | NaN

text \<open>\<open>ilog2 x\<close> is the binary exponent of a positive real: \<open>2^e \<le> x < 2^(e+1)\<close>.\<close>

function ilog2 :: "real \<Rightarrow> int" where
  "ilog2 x = (if x \<le> 0 then 0
              else if 2 \<le> x then ilog2 (x / 2) + 1
              else if x < 1 then ilog2 (x * 2) - 1
              else 0)"
  by pat_completeness auto
termination
proof (relation "measure (\<lambda>x. 2 * nat \<lceil>1 / x\<rceil> + nat \<lfloor>x\<rfloor>)", goal_cases)
  case 1
  show ?case by simp
next
  case (2 x)
  then have x: "2 \<le> x" by simp
  have a: "\<lceil>1 / (x / 2)\<rceil> = 1" using x by (simp add: ceiling_eq_iff)
  have b: "\<lceil>1 / x\<rceil> = 1" using x by (simp add: ceiling_eq_iff)
  have c: "\<lfloor>x / 2\<rfloor> < \<lfloor>x\<rfloor>" using x by linarith
  have d: "0 \<le> \<lfloor>x / 2\<rfloor>" using x by simp
  show ?case using x a b c d by simp
next
  case (3 x)
  then have x: "0 < x" "x < 1" by simp_all
  show ?case
  proof (cases "x \<le> 1/2")
    case True
    have "1 / (x * 2) + 1 \<le> 1 / x" using x True by (simp add: field_simps)
    then have c: "\<lceil>1 / (x * 2)\<rceil> + 1 \<le> \<lceil>1 / x\<rceil>" by linarith
    have p: "0 < \<lceil>1 / (x * 2)\<rceil>" using x by simp
    have f1: "\<lfloor>x\<rfloor> = 0" using x by (simp add: floor_eq_iff)
    have f2: "\<lfloor>x * 2\<rfloor> \<le> 1" using True by linarith
    show ?thesis using c p f1 f2 by simp linarith
  next
    case False
    have a: "\<lceil>1 / (x * 2)\<rceil> = 1" using x False by (simp add: ceiling_eq_iff field_simps)
    have b: "\<lceil>1 / x\<rceil> = 2" using x False by (simp add: ceiling_eq_iff field_simps)
    have f1: "\<lfloor>x\<rfloor> = 0" using x by (simp add: floor_eq_iff)
    have f2: "\<lfloor>x * 2\<rfloor> = 1" using x False by (simp add: floor_eq_iff)
    show ?thesis using a b f1 f2 by simp
  qed
qed

declare ilog2.simps [simp del]

text \<open>Rounding to the nearest integer, ties to the even one.\<close>

definition round_half_even :: "real \<Rightarrow> int" where
  "round_half_even y =
     (let f = \<lfloor>y\<rfloor>; d = y - of_int f
      in if d < 1/2 then f else if 1/2 < d then f + 1 else if even f then f else f + 1)"

text \<open>
  The spacing of binary64 values around \<open>x\<close>: 53 significant bits, and the fixed
  spacing \<open>2^-1074\<close> of the subnormal range below \<open>2^-1022\<close>.
\<close>

definition quantum :: "real \<Rightarrow> real" where
  "quantum x = 2 powi (max (ilog2 \<bar>x\<bar>) (- 1022) - 52)"

definition round_real :: "real \<Rightarrow> real" where
  "round_real x = of_int (round_half_even (x / quantum x)) * quantum x"

definition round_f64 :: "real \<Rightarrow> f64" where
  "round_f64 x =
     (let y = round_real x
      in if 2 ^ 1024 \<le> y then PInf else if y \<le> - (2 ^ 1024) then NInf else Fin y)"

fun is_f64 :: "f64 \<Rightarrow> bool" where
  "is_f64 (Fin x) = (round_f64 x = Fin x)"
| "is_f64 _ = True"

text \<open>Comparisons: every comparison with NaN is false.\<close>

fun flt :: "f64 \<Rightarrow> f64 \<Rightarrow> bool" where
  "flt (Fin x) (Fin y) = (x < y)"
| "flt (Fin x) PInf = True"
| "flt NInf (Fin y) = True"
| "flt NInf PInf = True"
| "flt _ _ = False"

fun fle :: "f64 \<Rightarrow> f64 \<Rightarrow> bool" where
  "fle (Fin x) (Fin y) = (x \<le> y)"
| "fle (Fin x) PInf = True"
| "fle NInf (Fin y) = True"
| "fle NInf PInf = True"
| "fle NInf NInf = True"
| "fle PInf PInf = True"
| "fle _ _ = False"

definition fgt :: "f64 \<Rightarrow> f64 \<Rightarrow> bool" where
  "fgt a b = flt b a"

definition fge :: "f64 \<Rightarrow> f64 \<Rightarrow> bool" where
  "fge a b = fle b a"

text \<open>Arithmetic.\<close>

fun fneg :: "f64 \<Rightarrow> f64" where
  "fneg (Fin x) = Fin (- x)"
| "fneg PInf = NInf"
| "fneg NInf = PInf"
| "fneg NaN = NaN"

fun fadd :: "f64 \<Rightarrow> f64 \<Rightarrow> f64" where
  "fadd (Fin x) (Fin y) = round_f64 (x + y)"
| "fadd NaN _ = NaN"
| "fadd _ NaN = NaN"
| "fadd PInf NInf = NaN"
| "fadd NInf PInf = NaN"
| "fadd PInf _ = PInf"
| "fadd _ PInf = PInf"
| "fadd NInf _ = NInf"
| "fadd _ NInf = NInf"

definition fsub :: "f64 \<Rightarrow> f64 \<Rightarrow> f64" where
  "fsub a b = fadd a (fneg b)"

text \<open>Division; a zero divisor is the positive zero that \<^verbatim>\<open>float64(0)\<close> gives.\<close>

fun fdiv :: "f64 \<Rightarrow> f64 \<Rightarrow> f64" where
  "fdiv (Fin x) (Fin y) =
     (if y = 0 then (if x = 0 then NaN else if 0 < x then PInf else NInf)
      else round_f64 (x / y))"
| "fdiv NaN _ = NaN"
| "fdiv _ NaN = NaN"
| "fdiv (Fin x) _ = Fin 0"
| "fdiv PInf (Fin y) = (if 0 \<le> y then PInf else NInf)"
| "fdiv NInf (Fin y) = (if 0 \<le> y then NInf else PInf)"
| "fdiv PInf PInf = NaN"
| "fdiv PInf NInf = NaN"
| "fdiv NInf PInf = NaN"
| "fdiv NInf NInf = NaN"

text \<open>The conversion \<^verbatim>\<open>float64(m)\<close> of an int.\<close>

definition f64_of_int :: "int \<Rightarrow> f64" where
  "f64_of_int m = round_f64 (of_int m)"

text \<open>
  The conversion \<^verbatim>\<open>int(f)\<close> discards the fraction (truncation towards zero). Where the
  64-bit int cannot represent the value (NaN, an infinity, a magnitude of \<open>2^63\<close> or
  more) the conversion still succeeds, and Go leaves the int it yields to the
  implementation: the parameter \<open>conv\<close> stands for that choice. On amd64 it is the
  smallest int for every such value.
\<close>

fun int_of_f64 :: "(f64 \<Rightarrow> int) \<Rightarrow> f64 \<Rightarrow> int" where
  "int_of_f64 conv (Fin x) =
     (let t = (if 0 \<le> x then \<lfloor>x\<rfloor> else \<lceil>x\<rceil>)
      in if - (2 ^ 63) \<le> t \<and> t < 2 ^ 63 then t else conv (Fin x))"
| "int_of_f64 conv PInf = conv PInf"
| "int_of_f64 conv NInf = conv NInf"
| "int_of_f64 conv NaN = conv NaN"


section \<open>The data model of fastbinning.go\<close>

record Bin =
  boundaries :: "f64 list"
  uniformBinWidth :: f64
  histogram :: "int list"
  cumulativeHistogram :: "int list"

text \<open>
  Go's 64-bit \<^verbatim>\<open>int\<close> is modelled by \<open>int\<close>. The program's integers are lengths, indices
  and counts bounded by the number of boundaries, except the cell number that comes
  from a conversion: \<^verbatim>\<open>uniformBinNumber\<close> is used only as the index
  \<^verbatim>\<open>uniformBinNumber-1\<close>, which is the converted int again, with or without wrap-around
  of the addition of 1.
\<close>

text \<open>
  What a call can end with other than its value: the error \<^verbatim>\<open>New\<close> returns (the two
  values and the two indices its message reports), and the run-time panics.
\<close>

datatype failure =
    ValidationError f64 f64 int int
  | IndexOutOfRange
  | SliceBoundsOutOfRange
  | NotPrepared

text \<open>An index expression \<^verbatim>\<open>xs[i]\<close>: Go panics when the index is out of range.\<close>

definition elem_at :: "'a list \<Rightarrow> int \<Rightarrow> failure + 'a" where
  "elem_at xs i = (if 0 \<le> i \<and> i < int (length xs) then Inr (xs ! nat i) else Inl IndexOutOfRange)"

section \<open>Boundary\<close>

definition Boundary :: "Bin \<Rightarrow> int \<Rightarrow> failure + f64" where
  "Boundary bin i = elem_at (boundaries bin) i"

section \<open>precalculation\<close>

text \<open>
  The inner loop \<^verbatim>\<open>for b > lowestBound+bin.uniformBinWidth\<close>. Nothing in the loop bounds
  the number of iterations, so not returning is the value \<open>None\<close>.
\<close>

partial_function (option) advance :: "f64 \<Rightarrow> f64 \<Rightarrow> f64 \<Rightarrow> int \<Rightarrow> (f64 \<times> int) option" where
  "advance w b lowestBound uniformBinNumber =
     (if fgt b (fadd lowestBound w)
      then advance w b (fadd lowestBound w) (uniformBinNumber + 1)
      else Some (lowestBound, uniformBinNumber))"

text \<open>The loop over the interior boundaries \<^verbatim>\<open>bin.boundaries[1:m]\<close> (step 2).\<close>

fun count_boundaries ::
  "f64 \<Rightarrow> f64 list \<Rightarrow> f64 \<Rightarrow> int \<Rightarrow> int list \<Rightarrow> (failure + int list) option" where
  "count_boundaries w [] lowestBound uniformBinNumber hist = Some (Inr hist)"
| "count_boundaries w (b # rest) lowestBound uniformBinNumber hist =
     (case advance w b lowestBound uniformBinNumber of
        None \<Rightarrow> None
      | Some (lowestBound', uniformBinNumber') \<Rightarrow>
          if 0 \<le> uniformBinNumber' - 1 \<and> uniformBinNumber' - 1 < int (length hist)
          then count_boundaries w rest lowestBound' uniformBinNumber'
                 (hist[nat (uniformBinNumber' - 1) := hist ! nat (uniformBinNumber' - 1) + 1])
          else Some (Inl IndexOutOfRange))"

text \<open>The loop \<^verbatim>\<open>for i, h := range bin.histogram\<close> (step 3).\<close>

fun accumulate :: "int list \<Rightarrow> nat \<Rightarrow> int list \<Rightarrow> int list" where
  "accumulate [] i cum = cum"
| "accumulate (h # hs) i cum = accumulate hs (i + 1) (cum[i + 1 := cum ! i + h])"

definition precalculation :: "Bin \<Rightarrow> (failure + Bin) option" where
  "precalculation bin =
     (let bs = boundaries bin; m = int (length bs) - 1
      in if m < 0 then Some (Inl IndexOutOfRange)
         else
           let totalWidth = fsub (bs ! nat m) (bs ! 0);
               w = fdiv totalWidth (f64_of_int m);
               hist0 = replicate (nat m) 0
           in if m < 1 then Some (Inl SliceBoundsOutOfRange)
              else
                (case count_boundaries w (take (nat m - 1) (drop 1 bs)) (bs ! 0) 1 hist0 of
                   None \<Rightarrow> None
                 | Some (Inl e) \<Rightarrow> Some (Inl e)
                 | Some (Inr hist) \<Rightarrow>
                     Some (Inr (bin\<lparr>uniformBinWidth := w, histogram := hist,
                       cumulativeHistogram :=
                         accumulate hist 0 ((replicate (nat m + 1) 0)[0 := 1])\<rparr>))))"

section \<open>New\<close>

text \<open>
  The loop \<^verbatim>\<open>for i, b := range boundaries[1:]\<close>: \<open>prev\<close> is \<^verbatim>\<open>boundaries[i]\<close>, the element
  before \<open>b\<close>, and the message reports the indices \<^verbatim>\<open>i-1\<close> and \<^verbatim>\<open>i\<close>.
\<close>

fun check_increasing :: "int \<Rightarrow> f64 \<Rightarrow> f64 list \<Rightarrow> failure option" where
  "check_increasing i prev [] = None"
| "check_increasing i prev (b # rest) =
     (if fge prev b then Some (ValidationError prev b (i - 1) i)
      else check_increasing (i + 1) b rest)"

definition New :: "f64 list \<Rightarrow> (failure + Bin) option" where
  "New bs =
     (case bs of
        [] \<Rightarrow> Some (Inl SliceBoundsOutOfRange)
      | b0 # rest \<Rightarrow>
          (case check_increasing 0 b0 rest of
             Some e \<Rightarrow> Some (Inl e)
           | None \<Rightarrow>
               precalculation \<lparr>boundaries = bs, uniformBinWidth = Fin 0,
                 histogram = [], cumulativeHistogram = []\<rparr>))"

section \<open>Search\<close>

text \<open>
  \<^verbatim>\<open>sort.Search(n, f)\<close> of Go's standard library: binary search for the smallest index
  in \<open>[0, n)\<close> at which \<open>f\<close> is true, \<open>n\<close> if there is none. The predicate reads the
  boundaries, so it can panic.
\<close>

function sort_Search_loop :: "(int \<Rightarrow> failure + bool) \<Rightarrow> int \<Rightarrow> int \<Rightarrow> failure + int" where
  "sort_Search_loop f i j =
     (if i < j
      then (let h = (i + j) div 2
            in case f h of
                 Inl e \<Rightarrow> Inl e
               | Inr t \<Rightarrow> if \<not> t then sort_Search_loop f (h + 1) j else sort_Search_loop f i h)
      else Inr i)"
  by pat_completeness auto
termination
  by (relation "measure (\<lambda>(f, i, j). nat (j - i))") auto

declare sort_Search_loop.simps [simp del]

definition sort_Search :: "int \<Rightarrow> (int \<Rightarrow> failure + bool) \<Rightarrow> failure + int" where
  "sort_Search n f = sort_Search_loop f 0 n"

text \<open>The \<^verbatim>\<open>switch h\<close> at the end of \<^verbatim>\<open>Search\<close>.\<close>

definition dispatch :: "Bin \<Rightarrow> f64 \<Rightarrow> int \<Rightarrow> int \<Rightarrow> failure + int" where
  "dispatch bin v h r =
     (if h = 0 then Inr r
      else if h = 1 then
        (case elem_at (boundaries bin) r of
           Inl e \<Rightarrow> Inl e
         | Inr br \<Rightarrow> if fge v br then Inr (r + 1) else Inr r)
      else if h = 2 then
        (case elem_at (boundaries bin) (r + 1) of
           Inl e \<Rightarrow> Inl e
         | Inr br1 \<Rightarrow>
            if fge v br1 then Inr (r + 2)
            else
             (case elem_at (boundaries bin) r of
                Inl e \<Rightarrow> Inl e
              | Inr br \<Rightarrow> if flt v br then Inr r else Inr (r + 1)))
      else
        (case sort_Search h
                (\<lambda>i. case elem_at (boundaries bin) (r + i) of
                        Inl e \<Rightarrow> Inl e
                      | Inr b \<Rightarrow> Inr (flt v b)) of
           Inl e \<Rightarrow> Inl e
         | Inr i \<Rightarrow> Inr (r + i)))"

definition Search :: "(f64 \<Rightarrow> int) \<Rightarrow> Bin \<Rightarrow> f64 \<Rightarrow> failure + int" where
  "Search conv bin v =
     (if fle (uniformBinWidth bin) (Fin 0) then Inl NotPrepared
      else
       (case elem_at (boundaries bin) 0 of
          Inl e \<Rightarrow> Inl e
        | Inr b0 \<Rightarrow>
           if flt v b0 then Inr 0
           else
            (case elem_at (boundaries bin) (int (length (boundaries bin)) - 1) of
               Inl e \<Rightarrow> Inl e
             | Inr bm \<Rightarrow>
                if fge v bm then Inr (int (length (boundaries bin)))
                else
                 (let uniformBinNumber
                        = int_of_f64 conv (fdiv (fsub v b0) (uniformBinWidth bin)) + 1
                  in (case elem_at (histogram bin) (uniformBinNumber - 1) of
                        Inl e \<Rightarrow> Inl e
                      | Inr h \<Rightarrow>
                         (case elem_at (cumulativeHistogram bin) (uniformBinNumber - 1) of
                            Inl e \<Rightarrow> Inl e
                          | Inr r \<Rightarrow> dispatch bin v h r))))))"

section \<open>Notions used to state the properties\<close>

text \<open>\<^verbatim>\<open>boundaries[i] < boundaries[i+1]\<close> for every adjacent pair.\<close>

fun strictly_increasing :: "f64 list \<Rightarrow> bool" where
  "strictly_increasing (a # b # rest) = (flt a b \<and> strictly_increasing (b # rest))"
| "strictly_increasing _ = True"

fun nondecreasing :: "int list \<Rightarrow> bool" where
  "nondecreasing (a # b # rest) = (a \<le> b \<and> nondecreasing (b # rest))"
| "nondecreasing _ = True"

text \<open>The interior boundaries \<^verbatim>\<open>boundaries[1:m]\<close>.\<close>

definition interior :: "'a list \<Rightarrow> 'a list" where
  "interior bs = take (length bs - 2) (drop 1 bs)"

text \<open>
  The upper edge of uniform cell \<open>k\<close> as the sweep of \<^verbatim>\<open>precalculation\<close> computes it:
  the value of \<^verbatim>\<open>lowestBound\<close> after \<open>k\<close> additions of \<^verbatim>\<open>uniformBinWidth\<close>.
\<close>

primrec edge :: "f64 \<Rightarrow> f64 \<Rightarrow> nat \<Rightarrow> f64" where
  "edge w b0 0 = b0"
| "edge w b0 (Suc k) = fadd (edge w b0 k) w"

text \<open>
  Boundary \<open>b\<close> is counted in uniform cell \<open>c\<close> (numbered from 1): \<open>c\<close> is the first
  cell whose upper edge \<open>b\<close> does not exceed.
\<close>

definition in_cell :: "f64 \<Rightarrow> f64 \<Rightarrow> f64 \<Rightarrow> nat \<Rightarrow> bool" where
  "in_cell w b0 b c = (1 \<le> c \<and> \<not> fgt b (edge w b0 c) \<and> (\<forall>k\<in>{1..<c}. fgt b (edge w b0 k)))"

text \<open>Boundary \<open>b\<close> is counted in one of the cells \<open>1, \<dots>, q\<close>.\<close>

definition covered :: "f64 \<Rightarrow> f64 \<Rightarrow> nat \<Rightarrow> f64 \<Rightarrow> bool" where
  "covered w b0 q b = (\<exists>c\<in>{1..q}. \<not> fgt b (edge w b0 c))"






text \<open>The real value of a finite float64.\<close>

fun val :: "f64 \<Rightarrow> real" where
  "val (Fin x) = x"
| "val _ = 0"


text \<open>
  The uniform grid in exact arithmetic, for \<open>m + 1\<close> real boundaries: the width
  \<open>(boundaries[m] - boundaries[0]) / m\<close> of a cell and the edges
  \<open>boundaries[0] + k * width\<close>.
\<close>

definition cell_width :: "real list \<Rightarrow> real" where
  "cell_width xs = (xs ! (length xs - 1) - xs ! 0) / real (length xs - 1)"

definition cell_edge :: "real list \<Rightarrow> nat \<Rightarrow> real" where
  "cell_edge xs k = xs ! 0 + real k * cell_width xs"





text \<open>The smallest positive float64: every finite float64 is a multiple of it.\<close>

definition min_subnormal :: real where
  "min_subnormal = 2 powi (- 1074)"

text \<open>The reference case of the paper, used by the repository's test.\<close>

definition paper_boundaries :: "f64 list" where
  "paper_boundaries = [Fin 2, Fin 11, Fin 19, Fin 20, Fin 21, Fin 27, Fin 29, Fin 30]"

definition paper_bin :: Bin where
  "paper_bin = \<lparr>boundaries = paper_boundaries, uniformBinWidth = Fin 4,
     histogram = [0, 0, 1, 0, 3, 0, 2], cumulativeHistogram = [1, 1, 1, 2, 2, 5, 5, 7]\<rparr>"

section \<open>Evaluation rules\<close>

lemmas f64_eval = round_f64_def round_real_def quantum_def round_half_even_def ilog2.simps
  f64_of_int_def fsub_def fgt_def fge_def Let_def

lemmas new_eval = New_def precalculation_def advance.simps

lemmas search_eval = Search_def dispatch_def elem_at_def sort_Search_def sort_Search_loop.simps

lemma New_paper: "New paper_boundaries = Some (Inr paper_bin)"
  unfolding paper_bin_def paper_boundaries_def
  by (simp add: new_eval f64_eval) (simp add: eval_nat_numeral)



section \<open>Facts about rounding\<close>

lemma ilog2_bounds:
  "0 < x \<Longrightarrow> 2 powi (ilog2 x) \<le> x \<and> x < 2 powi (ilog2 x + 1)"
proof (induction x rule: ilog2.induct)
  case (1 x)
  show ?case
  proof (cases "2 \<le> x")
    case True
    then have eq: "ilog2 x = ilog2 (x / 2) + 1" using 1(3) by (subst ilog2.simps) simp
    have IH: "2 powi (ilog2 (x / 2)) \<le> x / 2 \<and> x / 2 < 2 powi (ilog2 (x / 2) + 1)"
      using 1(1) True 1(3) by simp
    show ?thesis using IH unfolding eq by (simp add: power_int_add field_simps)
  next
    case False
    show ?thesis
    proof (cases "x < 1")
      case True
      then have eq: "ilog2 x = ilog2 (x * 2) - 1" using 1(3) False by (subst ilog2.simps) simp
      have IH: "2 powi (ilog2 (x * 2)) \<le> x * 2 \<and> x * 2 < 2 powi (ilog2 (x * 2) + 1)"
        using 1(2) True False 1(3) by simp
      show ?thesis using IH unfolding eq by (simp add: power_int_add power_int_diff field_simps)
    next
      case F2: False
      then have eq: "ilog2 x = 0" using 1(3) False by (subst ilog2.simps) simp
      show ?thesis using False F2 unfolding eq by simp
    qed
  qed
qed

lemma pow2_le_iff: "(2::real) powi a \<le> 2 powi b \<longleftrightarrow> a \<le> b"
proof
  assume h: "(2::real) powi a \<le> 2 powi b"
  show "a \<le> b"
  proof (rule ccontr)
    assume "\<not> a \<le> b"
    then have "b < a" by simp
    then have "(2::real) powi b < 2 powi a" by (rule power_int_strict_increasing) simp
    with h show False by simp
  qed
next
  assume "a \<le> b"
  then show "(2::real) powi a \<le> 2 powi b" by (rule power_int_increasing) simp
qed

lemma pow2_less_iff: "(2::real) powi a < 2 powi b \<longleftrightarrow> a < b"
  using pow2_le_iff [of b a] by (auto simp: not_le [symmetric])

lemma ilog2_unique:
  assumes "0 < x" "2 powi e \<le> x" "x < 2 powi (e + 1)"
  shows "ilog2 x = e"
proof -
  have b: "2 powi (ilog2 x) \<le> x" "x < 2 powi (ilog2 x + 1)"
    using ilog2_bounds [OF assms(1)] by simp_all
  have "(2::real) powi e < 2 powi (ilog2 x + 1)" using assms(2) b(2) by linarith
  then have 1: "e < ilog2 x + 1" by (simp only: pow2_less_iff)
  have "(2::real) powi (ilog2 x) < 2 powi (e + 1)" using assms(3) b(1) by linarith
  then have 2: "ilog2 x < e + 1" by (simp only: pow2_less_iff)
  show ?thesis using 1 2 by simp
qed

lemma ilog2_mono:
  assumes "0 < x" "x \<le> y"
  shows "ilog2 x \<le> ilog2 y"
proof -
  have "2 powi (ilog2 x) \<le> x" using ilog2_bounds [OF assms(1)] by simp
  moreover have "y < 2 powi (ilog2 y + 1)" using ilog2_bounds [of y] assms by simp
  ultimately have "(2::real) powi (ilog2 x) < 2 powi (ilog2 y + 1)" using assms(2) by linarith
  then show ?thesis by (simp add: pow2_less_iff)
qed

lemma ilog2_scale:
  assumes "0 < x"
  shows "ilog2 (x * 2 powi j) = ilog2 x + j"
proof (rule ilog2_unique)
  show "0 < x * 2 powi j" using assms by simp
  have b: "2 powi (ilog2 x) \<le> x" "x < 2 powi (ilog2 x + 1)"
    using ilog2_bounds [OF assms] by simp_all
  have p: "(0::real) < 2 powi j" by simp
  show "2 powi (ilog2 x + j) \<le> x * 2 powi j"
    using b(1) p by (simp add: power_int_add)
  have "x * 2 powi j < 2 powi (ilog2 x + 1) * 2 powi j"
    using b(2) p by (simp only: mult_less_cancel_right_pos)
  then show "x * 2 powi j < 2 powi (ilog2 x + j + 1)"
    by (simp add: power_int_add mult_ac)
qed

lemma ilog2_of_int_nonneg:
  assumes "1 \<le> (n::int)"
  shows "0 \<le> ilog2 (of_int n)"
proof -
  have "ilog2 1 \<le> ilog2 (of_int n)" using assms by (intro ilog2_mono) simp_all
  moreover have "ilog2 1 = 0" by (simp add: ilog2.simps)
  ultimately show ?thesis by simp
qed

subsection \<open>Rounding to an integer\<close>

lemma round_half_even_of_int [simp]: "round_half_even (of_int n) = n"
  by (simp add: round_half_even_def)

lemma round_half_even_bounds:
  "of_int (round_half_even y) \<le> y + 1/2" "y - 1/2 \<le> of_int (round_half_even y)"
  unfolding round_half_even_def Let_def by (auto; linarith)+

lemma round_half_even_mono:
  assumes "a \<le> b"
  shows "round_half_even a \<le> round_half_even b"
proof (cases "\<lfloor>a\<rfloor> = \<lfloor>b\<rfloor>")
  case True
  then show ?thesis using assms unfolding round_half_even_def Let_def by auto
next
  case False
  then have "\<lfloor>a\<rfloor> + 1 \<le> \<lfloor>b\<rfloor>" using assms floor_mono [of a b] by linarith
  moreover have "round_half_even a \<le> \<lfloor>a\<rfloor> + 1" unfolding round_half_even_def Let_def by auto
  moreover have "\<lfloor>b\<rfloor> \<le> round_half_even b" unfolding round_half_even_def Let_def by auto
  ultimately show ?thesis by linarith
qed

lemma round_half_even_neg: "round_half_even (- a) = - round_half_even a"
proof (cases "a \<in> \<int>")
  case True
  then obtain n where "a = of_int n" by (auto elim: Ints_cases)
  then show ?thesis by (simp flip: of_int_minus)
next
  case False
  then have "a \<noteq> of_int \<lfloor>a\<rfloor>" by (metis Ints_of_int)
  then have f: "\<lfloor>- a\<rfloor> = - \<lfloor>a\<rfloor> - 1" by (simp add: floor_minus ceiling_altdef)
  show ?thesis unfolding round_half_even_def Let_def f by (auto; linarith?)
qed


subsection \<open>Rounding is monotone\<close>

lemma quantum_pos [simp]: "0 < quantum x"
  by (simp add: quantum_def)

lemma quantum_minus [simp]: "quantum (- x) = quantum x"
  by (simp add: quantum_def)

lemma round_half_even_0 [simp]: "round_half_even 0 = 0"
  using round_half_even_of_int [of 0] by simp

lemma div_quantum_mono: "a \<le> b \<Longrightarrow> a / quantum z \<le> b / quantum z"
  by (rule divide_right_mono) (simp_all add: less_imp_le)

lemma round_real_minus: "round_real (- x) = - round_real x"
  by (simp add: round_real_def round_half_even_neg)

lemma round_real_0 [simp]: "round_real 0 = 0"
  by (simp add: round_real_def)

lemma round_real_nonneg:
  assumes "0 \<le> x"
  shows "0 \<le> round_real x"
proof -
  have "0 / quantum x \<le> x / quantum x" using assms by (rule div_quantum_mono)
  then have "round_half_even 0 \<le> round_half_even (x / quantum x)"
    by (intro round_half_even_mono) simp
  then have "0 \<le> round_half_even (x / quantum x)" by simp
  then have "(0::real) \<le> of_int (round_half_even (x / quantum x))" by simp
  then show ?thesis unfolding round_real_def
    by (intro mult_nonneg_nonneg) (simp_all add: less_imp_le)
qed

lemma round_real_lower:
  assumes "0 < y" "- 1022 \<le> ilog2 y"
  shows "2 powi (ilog2 y) \<le> round_real y"
proof -
  have q: "quantum y = 2 powi (ilog2 y - 52)" using assms by (simp add: quantum_def max_def)
  have "2 powi (ilog2 y) \<le> y" using ilog2_bounds [OF assms(1)] by simp
  then have "2 powi (ilog2 y) / quantum y \<le> y / quantum y"
    by (rule div_quantum_mono)
  moreover have "2 powi (ilog2 y) / quantum y = of_int (2 ^ 52)"
    unfolding q by (simp add: power_int_diff)
  ultimately have "of_int (2 ^ 52) \<le> y / quantum y" by simp
  then have "round_half_even (of_int (2 ^ 52)) \<le> round_half_even (y / quantum y)"
    by (rule round_half_even_mono)
  then have "(2 ^ 52 :: int) \<le> round_half_even (y / quantum y)"
    by (simp only: round_half_even_of_int)
  then have "of_int (2 ^ 52) \<le> (of_int (round_half_even (y / quantum y)) :: real)"
    by (simp only: of_int_le_iff)
  then have "of_int (2 ^ 52) * quantum y \<le> round_real y"
    unfolding round_real_def by (simp only: mult_le_cancel_right_pos quantum_pos)
  moreover have "of_int (2 ^ 52) * quantum y = 2 powi (ilog2 y)"
    unfolding q by (simp add: power_int_diff)
  ultimately show ?thesis by simp
qed

lemma round_real_upper:
  assumes "0 < x"
  shows "round_real x \<le> 2 powi (max (ilog2 x) (- 1022) + 1)"
proof -
  define k where "k = max (ilog2 x) (- 1022)"
  have q: "quantum x = 2 powi (k - 52)" using assms by (simp add: quantum_def k_def)
  have "x < 2 powi (ilog2 x + 1)" using ilog2_bounds [OF assms] by simp
  also have "\<dots> \<le> 2 powi (k + 1)" by (simp add: pow2_le_iff k_def)
  finally have "x \<le> 2 powi (k + 1)" by simp
  then have "x / quantum x \<le> 2 powi (k + 1) / quantum x"
    by (rule div_quantum_mono)
  moreover have "2 powi (k + 1) / quantum x = of_int (2 ^ 53)"
    unfolding q by (simp add: power_int_diff power_int_add)
  ultimately have "x / quantum x \<le> of_int (2 ^ 53)" by simp
  then have "round_half_even (x / quantum x) \<le> round_half_even (of_int (2 ^ 53))"
    by (rule round_half_even_mono)
  then have "round_half_even (x / quantum x) \<le> (2 ^ 53 :: int)"
    by (simp only: round_half_even_of_int)
  then have "(of_int (round_half_even (x / quantum x)) :: real) \<le> of_int (2 ^ 53)"
    by (simp only: of_int_le_iff)
  then have "round_real x \<le> of_int (2 ^ 53) * quantum x"
    unfolding round_real_def by (simp only: mult_le_cancel_right_pos quantum_pos)
  moreover have "of_int (2 ^ 53) * quantum x = 2 powi (k + 1)"
    unfolding q by (simp add: power_int_diff power_int_add)
  ultimately show ?thesis unfolding k_def by simp
qed

lemma round_real_mono_pos:
  assumes "0 < x" "x \<le> y"
  shows "round_real x \<le> round_real y"
proof -
  have y: "0 < y" using assms by simp
  define kx where "kx = max (ilog2 x) (- 1022)"
  define ky where "ky = max (ilog2 y) (- 1022)"
  have le: "kx \<le> ky" using ilog2_mono [OF assms] by (simp add: kx_def ky_def max_def)
  show ?thesis
  proof (cases "kx = ky")
    case True
    then have q: "quantum x = quantum y" using assms y by (simp add: quantum_def kx_def ky_def)
    have "x / quantum y \<le> y / quantum y" using assms(2) by (rule div_quantum_mono)
    then have "round_half_even (x / quantum y) \<le> round_half_even (y / quantum y)"
      by (rule round_half_even_mono)
    then have "(of_int (round_half_even (x / quantum y)) :: real) \<le> of_int (round_half_even (y / quantum y))"
      by (simp only: of_int_le_iff)
    then show ?thesis unfolding round_real_def q
      by (simp only: mult_le_cancel_right_pos quantum_pos)
  next
    case False
    then have lt: "kx < ky" using le by simp
    then have ky: "ky = ilog2 y" "- 1022 \<le> ilog2 y" by (auto simp: kx_def ky_def max_def split: if_splits)
    have "round_real x \<le> 2 powi (kx + 1)" using round_real_upper [OF assms(1)] by (simp add: kx_def)
    also have "\<dots> \<le> 2 powi ky" using lt by (simp add: pow2_le_iff)
    also have "\<dots> \<le> round_real y" using round_real_lower [OF y ky(2)] by (simp add: ky(1))
    finally show ?thesis .
  qed
qed

lemma round_real_mono_nonneg:
  assumes "0 \<le> x" "x \<le> y"
  shows "round_real x \<le> round_real y"
proof (cases "x = 0")
  case True
  then show ?thesis using round_real_nonneg [of y] assms by simp
next
  case False
  then show ?thesis using assms by (intro round_real_mono_pos) simp_all
qed

lemma round_real_mono:
  assumes "x \<le> y"
  shows "round_real x \<le> round_real y"
proof (cases "0 \<le> x")
  case True
  then show ?thesis using assms by (rule round_real_mono_nonneg)
next
  case False
  then have x: "x < 0" by simp
  show ?thesis
  proof (cases "0 \<le> y")
    case True
    have "round_real x = - round_real (- x)" using round_real_minus [of "- x"] by simp
    moreover have "0 \<le> round_real (- x)" using x by (intro round_real_nonneg) simp
    moreover have "0 \<le> round_real y" using True by (rule round_real_nonneg)
    ultimately show ?thesis by simp
  next
    case False
    then have "round_real (- y) \<le> round_real (- x)" using assms by (intro round_real_mono_nonneg) simp_all
    then show ?thesis by (simp add: round_real_minus)
  qed
qed


subsection \<open>Values that rounding leaves unchanged\<close>


lemma min_subnormal_pos [simp]: "0 < min_subnormal"
  unfolding min_subnormal_def by (rule zero_less_power_int) simp

lemma pow2_shift: "2 powi (a + (- 1074)) = 2 powi a * min_subnormal"
  unfolding min_subnormal_def by (rule power_int_add) simp

lemma pow2_split: "2 powi a * 2 powi b = (2::real) powi (a + b)"
  by (rule power_int_add [symmetric]) simp

lemma pow2_nat: "0 \<le> a \<Longrightarrow> (2::real) powi a = of_int (2 ^ nat a)"
  by (simp add: power_int_def)

lemma round_real_on_grid:
  assumes "round_real x = x"
  shows "\<exists>N::int. x = of_int N * min_subnormal"
proof -
  define e where "e = max (ilog2 \<bar>x\<bar>) (- 1022) - 52"
  define n where "n = round_half_even (x / quantum x)"
  have e: "0 \<le> e + 1074" by (simp add: e_def)
  have "e = (e + 1074) + (- 1074)" by simp
  then have "(2::real) powi e = 2 powi ((e + 1074) + (- 1074))" by (rule arg_cong)
  also have "\<dots> = 2 powi (e + 1074) * min_subnormal" by (rule pow2_shift)
  also have "2 powi (e + 1074) = (of_int (2 ^ nat (e + 1074)) :: real)" using e by (rule pow2_nat)
  finally have q: "quantum x = of_int (2 ^ nat (e + 1074)) * min_subnormal"
    by (simp only: quantum_def e_def)
  have "x = of_int n * quantum x" using assms by (simp add: round_real_def n_def)
  then have "x = of_int (n * 2 ^ nat (e + 1074)) * min_subnormal" unfolding q by simp
  then show ?thesis by blast
qed

lemma round_real_exact:
  assumes "x = of_int n * quantum x"
  shows "round_real x = x"
proof -
  have "x / quantum x = of_int n" using assms quantum_pos [of x]
    by (metis less_irrefl nonzero_mult_div_cancel_right)
  then show ?thesis using assms by (simp add: round_real_def)
qed

lemma ilog2_pow2: "ilog2 (2 powi e) = e"
proof (rule ilog2_unique)
  show "(0::real) < 2 powi e" by (rule zero_less_power_int) simp
  show "(2::real) powi e \<le> 2 powi e" by (rule order_refl)
  have "e < e + 1" by simp
  then show "(2::real) powi e < 2 powi (e + 1)" by (simp only: pow2_less_iff)
qed

lemma quantum_min_subnormal: "quantum min_subnormal = min_subnormal"
proof -
  have "ilog2 \<bar>min_subnormal\<bar> = - 1074"
    using ilog2_pow2 [of "- 1074"] min_subnormal_pos by (simp only: min_subnormal_def abs_of_pos)
  then have "quantum min_subnormal = 2 powi (- 1074)" by (simp only: quantum_def) simp
  then show ?thesis by (simp only: min_subnormal_def)
qed

lemma round_real_min_subnormal: "round_real min_subnormal = min_subnormal"
  by (rule round_real_exact [where n = 1]) (simp add: quantum_min_subnormal)

lemma round_real_1 [simp]: "round_real 1 = 1"
proof (rule round_real_exact [where n = "2 ^ 52"])
  have "ilog2 1 = 0" using ilog2_pow2 [of 0] by simp
  then have "quantum 1 = 2 powi (- 52)" by (simp add: quantum_def)
  then show "1 = real_of_int (2 ^ 52) * quantum 1" by simp
qed

lemma round_real_scale_int:
  assumes "1 \<le> (n::int)"
  shows "round_real (of_int n * min_subnormal) = round_real (of_int n) * min_subnormal"
proof -
  define k where "k = ilog2 (of_int n)"
  have n: "(0::real) < of_int n" using assms by simp
  have k0: "0 \<le> k" unfolding k_def using assms by (rule ilog2_of_int_nonneg)
  have ks: "ilog2 (of_int n * min_subnormal) = k + (- 1074)"
    unfolding min_subnormal_def k_def using n by (rule ilog2_scale)
  have pos: "(0::real) < of_int n * min_subnormal" using n by simp
  have qn: "quantum (of_int n) = 2 powi (k - 52)"
    using n k0 by (simp add: quantum_def k_def max_def)
  have qs: "quantum (of_int n * min_subnormal) = 2 powi (max (k + (- 1074)) (- 1022) - 52)"
    using pos by (simp only: quantum_def abs_of_pos ks)
  show ?thesis
  proof (cases "52 \<le> k")
    case True
    then have "max (k + (- 1074)) (- 1022) - 52 = (k - 52) + (- 1074)" by simp
    then have "quantum (of_int n * min_subnormal) = 2 powi ((k - 52) + (- 1074))"
      unfolding qs by (rule arg_cong)
    also have "\<dots> = quantum (of_int n) * min_subnormal" unfolding qn by (rule pow2_shift)
    finally have q: "quantum (of_int n * min_subnormal) = quantum (of_int n) * min_subnormal" .
    show ?thesis unfolding round_real_def q by simp
  next
    case False
    then have k: "k < 52" by simp
    then have "max (k + (- 1074)) (- 1022) - 52 = 0 + (- 1074)" by simp
    then have "quantum (of_int n * min_subnormal) = 2 powi (0 + (- 1074))"
      unfolding qs by (rule arg_cong)
    also have "\<dots> = 2 powi 0 * min_subnormal" by (rule pow2_shift)
    finally have q1: "quantum (of_int n * min_subnormal) = min_subnormal" by simp
    have a: "round_real (of_int n * min_subnormal) = of_int n * min_subnormal"
      by (rule round_real_exact [where n = n]) (simp add: q1)
    have "(2::real) powi (52 - k) * 2 powi (k - 52) = 2 powi ((52 - k) + (k - 52))"
      by (rule pow2_split)
    then have "(2::real) powi (52 - k) * quantum (of_int n) = 1" unfolding qn by simp
    moreover have "(2::real) powi (52 - k) = of_int (2 ^ nat (52 - k))"
      using k by (intro pow2_nat) simp
    ultimately have "real_of_int (2 ^ nat (52 - k)) * quantum (of_int n) = 1" by simp
    then have "real_of_int n = of_int n * (of_int (2 ^ nat (52 - k)) * quantum (of_int n))"
      by simp
    then have "real_of_int n = of_int (n * 2 ^ nat (52 - k)) * quantum (of_int n)"
      by (simp only: of_int_mult mult.assoc)
    then have b: "round_real (of_int n) = of_int n"
      by (rule round_real_exact)
    show ?thesis unfolding a b ..
  qed
qed

lemma round_real_of_int_ge_1:
  assumes "1 \<le> (n::int)"
  shows "1 \<le> round_real (of_int n)"
proof -
  have "round_real 1 \<le> round_real (of_int n)" using assms by (intro round_real_mono) simp
  then show ?thesis by simp
qed

lemma width_positive_real:
  assumes "1 \<le> (m::int)" "of_int m * min_subnormal \<le> D"
  shows "min_subnormal \<le> round_real (round_real D / round_real (of_int m))"
proof -
  define m' where "m' = round_real (of_int m)"
  have m': "1 \<le> m'" unfolding m'_def using assms(1) by (rule round_real_of_int_ge_1)
  have "round_real (of_int m * min_subnormal) \<le> round_real D"
    using assms(2) by (rule round_real_mono)
  then have "m' * min_subnormal \<le> round_real D"
    unfolding m'_def round_real_scale_int [OF assms(1)] .
  then have "min_subnormal \<le> round_real D / m'"
    using m' by (simp add: pos_le_divide_eq mult.commute)
  then have "round_real min_subnormal \<le> round_real (round_real D / m')"
    by (rule round_real_mono)
  then show ?thesis unfolding m'_def round_real_min_subnormal .
qed


subsection \<open>The uniform bin width is positive\<close>

lemma round_f64_nonneg_cases:
  assumes "0 \<le> x"
  shows "round_f64 x = PInf \<or> round_f64 x = Fin (round_real x)"
proof -
  have "0 \<le> round_real x" using assms by (rule round_real_nonneg)
  moreover have "- (2 ^ 1024) < (0::real)" by simp
  ultimately have "\<not> round_real x \<le> - (2 ^ 1024)" by linarith
  then show ?thesis unfolding round_f64_def Let_def by (simp only: if_False) simp
qed

lemma is_f64_round_real:
  assumes "is_f64 (Fin x)"
  shows "round_real x = x"
  using assms unfolding is_f64.simps round_f64_def Let_def by (simp split: if_splits)

lemma is_f64_grid:
  assumes "is_f64 (Fin x)"
  shows "\<exists>N::int. x = of_int N * min_subnormal"
  using assms by (intro round_real_on_grid is_f64_round_real)

lemma grid_gap:
  assumes "is_f64 (Fin x)" "is_f64 (Fin y)" "x < y"
  shows "min_subnormal \<le> y - x"
proof -
  obtain N where N: "x = of_int N * min_subnormal" using is_f64_grid [OF assms(1)] by blast
  obtain M where M: "y = of_int M * min_subnormal" using is_f64_grid [OF assms(2)] by blast
  have "real_of_int N < of_int M" using assms(3) unfolding N M by simp
  then have "N + 1 \<le> M" by simp
  then have "real_of_int (N + 1) \<le> of_int M" by (simp only: of_int_le_iff)
  then have "of_int (N + 1) * min_subnormal \<le> of_int M * min_subnormal"
    by (simp only: mult_le_cancel_right_pos min_subnormal_pos)
  then show ?thesis unfolding N M by (simp add: algebra_simps)
qed

lemma increasing_span:
  assumes "strictly_increasing (Fin x0 # rest)" "list_all is_f64 (Fin x0 # rest)"
    "last (Fin x0 # rest) = Fin xm"
  shows "of_int (int (length rest)) * min_subnormal \<le> xm - x0"
  using assms
proof (induction rest arbitrary: x0)
  case Nil
  then show ?case by simp
next
  case (Cons b rest)
  from Cons.prems(1) have lt: "flt (Fin x0) b" and inc: "strictly_increasing (b # rest)" by simp_all
  show ?case
  proof (cases b)
    case (Fin x1)
    have x: "x0 < x1" using lt Fin by simp
    have v: "is_f64 (Fin x0)" "is_f64 (Fin x1)" using Cons.prems(2) Fin by simp_all
    have gap: "min_subnormal \<le> x1 - x0" using v x by (rule grid_gap)
    have "of_int (int (length rest)) * min_subnormal \<le> xm - x1"
      using Cons.IH [of x1] inc Cons.prems(2,3) Fin by simp
    then show ?thesis using gap by (simp add: algebra_simps)
  next
    case PInf
    show ?thesis
    proof (cases rest)
      case Nil
      then show ?thesis using Cons.prems(3) PInf by simp
    next
      case (Cons c rest')
      then show ?thesis using inc PInf by simp
    qed
  next
    case NInf
    then show ?thesis using lt by simp
  next
    case NaN
    then show ?thesis using lt by simp
  qed
qed

lemma f64_of_int_finite:
  assumes "1 \<le> m" "m < 2 ^ 63"
  shows "\<exists>m'. f64_of_int m = Fin m' \<and> 1 \<le> m'"
proof -
  have pos: "(0::real) < of_int m" using assms(1) by simp
  have "real_of_int m < of_int (2 ^ 63)" using assms(2) by (simp only: of_int_less_iff)
  also have "\<dots> = 2 powi 63" by simp
  finally have "2 powi (ilog2 (of_int m)) < (2::real) powi 63"
    using ilog2_bounds [OF pos] by linarith
  then have k: "ilog2 (of_int m) < 63" by (simp only: pow2_less_iff)
  have "0 \<le> ilog2 (real_of_int m)" using assms(1) by (rule ilog2_of_int_nonneg)
  then have "round_real (of_int m) \<le> 2 powi (ilog2 (of_int m) + 1)"
    using round_real_upper [OF pos] by (simp add: max_def)
  also have "\<dots> \<le> 2 powi 63" using k by (simp only: pow2_le_iff)
  also have "\<dots> < (2::real) ^ 1024" by simp
  finally have hi: "\<not> 2 ^ 1024 \<le> round_real (of_int m)" by simp
  have lo: "1 \<le> round_real (of_int m)" using assms(1) by (rule round_real_of_int_ge_1)
  then have "\<not> round_real (of_int m) \<le> - (2 ^ 1024)" by simp
  then have "f64_of_int m = Fin (round_real (of_int m))"
    using hi unfolding f64_of_int_def round_f64_def Let_def by simp
  then show ?thesis using lo by blast
qed

lemma fdiv_pos_width:
  assumes "1 \<le> (m::int)" "of_int m * min_subnormal \<le> D" "1 \<le> m'" "m' = round_real (of_int m)"
  shows "flt (Fin 0) (fdiv (round_f64 D) (Fin m'))"
proof -
  have D: "0 \<le> D"
  proof -
    have "(0::real) \<le> of_int m" using assms(1) by simp
    then have "0 \<le> real_of_int m * min_subnormal"
      by (rule mult_nonneg_nonneg) (simp add: less_imp_le)
    then show ?thesis using assms(2) by linarith
  qed
  have m0: "m' \<noteq> 0" "0 \<le> m'" using assms(3) by simp_all
  from round_f64_nonneg_cases [OF D] show ?thesis
  proof
    assume "round_f64 D = PInf"
    then show ?thesis using m0 by simp
  next
    assume t: "round_f64 D = Fin (round_real D)"
    have w: "min_subnormal \<le> round_real (round_real D / m')"
      unfolding assms(4) using assms(1,2) by (rule width_positive_real)
    have q: "0 \<le> round_real D / m'" using round_real_nonneg [OF D] m0 by simp
    have "fdiv (round_f64 D) (Fin m') = round_f64 (round_real D / m')"
      unfolding t using m0 by simp
    moreover have "0 < round_real (round_real D / m')"
      using w min_subnormal_pos by linarith
    then have "flt (Fin 0) (round_f64 (round_real D / m'))"
      using round_f64_nonneg_cases [OF q] by auto
    ultimately show ?thesis by simp
  qed
qed


lemma flt_right_cases:
  assumes "flt p b"
  obtains x where "b = Fin x" | "b = PInf"
  using assms by (cases p; cases b) simp_all

lemma flt_left_cases:
  assumes "flt b q"
  obtains x where "b = Fin x" | "b = NInf"
  using assms by (cases b; cases q) simp_all

lemma strictly_increasing_last:
  assumes "strictly_increasing (a # b # rest)"
  shows "\<exists>p. flt p (last (a # b # rest))"
  using assms
proof (induction rest arbitrary: a b)
  case Nil
  then show ?case by auto
next
  case (Cons c rest)
  then have "strictly_increasing (b # c # rest)" by simp
  then have "\<exists>p. flt p (last (b # c # rest))" by (rule Cons.IH)
  then show ?case by simp
qed

lemma width_positive:
  assumes inc: "strictly_increasing bs" and val: "list_all is_f64 bs"
    and len: "2 \<le> length bs" "int (length bs) < 2 ^ 63"
  shows "flt (Fin 0) (fdiv (fsub (bs ! (length bs - 1)) (bs ! 0)) (f64_of_int (int (length bs) - 1)))"
proof -
  obtain b0 b1 rest where bs: "bs = b0 # b1 # rest"
    using len(1) by (cases bs; cases "tl bs") auto
  define m where "m = int (length bs) - 1"
  have m: "1 \<le> m" "m < 2 ^ 63" using len by (simp_all add: m_def)
  obtain m' where m': "f64_of_int m = Fin m'" "1 \<le> m'"
    using f64_of_int_finite [OF m] by blast
  have m'r: "m' = round_real (of_int m)"
  proof -
    have "round_f64 (of_int m) = Fin m'" using m'(1) by (simp add: f64_of_int_def)
    then show ?thesis unfolding round_f64_def Let_def by (simp split: if_splits)
  qed
  have m0: "0 \<le> m'" using m'(2) by simp
  have last: "bs ! (length bs - 1) = last bs" using bs by (simp add: last_conv_nth)
  have hd: "bs ! 0 = b0" using bs by simp
  have "flt b0 b1" using inc bs by simp
  then consider x0 where "b0 = Fin x0" | "b0 = NInf" by (rule flt_left_cases)
  then show ?thesis
  proof cases
    case 2
    obtain p where "flt p (last bs)" using strictly_increasing_last inc bs by blast
    then consider xm where "last bs = Fin xm" | "last bs = PInf" by (rule flt_right_cases)
    then have "fsub (last bs) NInf = PInf" by cases (simp_all add: fsub_def)
    then show ?thesis unfolding last hd 2 m_def [symmetric] m'(1) using m0 by simp
  next
    case (1 x0)
    obtain p where "flt p (last bs)" using strictly_increasing_last inc bs by blast
    then consider xm where "last bs = Fin xm" | "last bs = PInf" by (rule flt_right_cases)
    then show ?thesis
    proof cases
      case 2
      have "fsub PInf (Fin x0) = PInf" by (simp add: fsub_def)
      then show ?thesis unfolding last hd 1 2 m_def [symmetric] m'(1) using m0 by simp
    next
      case (1 xm)
      have span: "of_int (int (length (b1 # rest))) * min_subnormal \<le> xm - x0"
        using inc val 1 \<open>b0 = Fin x0\<close> unfolding bs by (intro increasing_span) simp_all
      have "int (length (b1 # rest)) = m" by (simp add: m_def bs)
      then have D: "of_int m * min_subnormal \<le> xm + - x0" using span by simp
      have "fsub (Fin xm) (Fin x0) = round_f64 (xm + - x0)" by (simp add: fsub_def)
      then show ?thesis unfolding last hd 1 \<open>b0 = Fin x0\<close> m_def [symmetric] m'(1)
        using fdiv_pos_width [OF m(1) D m'(2) m'r] by simp
    qed
  qed
qed

section \<open>The order of float64 values\<close>

lemma flt_trans: "flt a b \<Longrightarrow> flt b c \<Longrightarrow> flt a c"
  by (cases a; cases b; cases c) simp_all

lemma flt_irrefl [simp]: "\<not> flt a a"
  by (cases a) simp_all









lemma flt_not_fle: "flt a b \<Longrightarrow> \<not> fle b a"
  by (cases a; cases b) simp_all

lemma strictly_increasing_sorted_wrt:
  "strictly_increasing bs \<Longrightarrow> sorted_wrt flt bs"
proof (induction bs rule: strictly_increasing.induct)
  case (1 a b rest)
  then have s: "sorted_wrt flt (b # rest)" and ab: "flt a b" by simp_all
  have "\<forall>x\<in>set (b # rest). flt a x"
  proof
    fix x assume "x \<in> set (b # rest)"
    then show "flt a x" using s ab by (auto intro: flt_trans)
  qed
  then show ?case using s by simp
qed simp_all

section \<open>The sweep of precalculation\<close>

lemma in_cell_unique:
  assumes "in_cell w b0 b c" "in_cell w b0 b c'"
  shows "c = c'"
proof (rule ccontr)
  assume "c \<noteq> c'"
  then consider "c < c'" | "c' < c" by linarith
  then show False
  proof cases
    case 1
    then have "fgt b (edge w b0 c)" using assms unfolding in_cell_def by auto
    then show False using assms(1) unfolding in_cell_def by simp
  next
    case 2
    then have "fgt b (edge w b0 c')" using assms unfolding in_cell_def by auto
    then show False using assms(2) unfolding in_cell_def by simp
  qed
qed

lemma advance_edge:
  assumes "advance w b L u = Some (L', u')" "L = edge w b0 j"
  shows "\<exists>n. u' = u + int n \<and> L' = edge w b0 (j + n)
           \<and> \<not> fgt b (edge w b0 (Suc (j + n)))
           \<and> (\<forall>k. j < k \<and> k \<le> j + n \<longrightarrow> fgt b (edge w b0 k))"
proof -
  define P where "P = (\<lambda>w b L u (y :: f64 \<times> int). \<forall>j. L = edge w b0 j \<longrightarrow>
          (\<exists>n. snd y = u + int n \<and> fst y = edge w b0 (j + n)
             \<and> \<not> fgt b (edge w b0 (Suc (j + n)))
             \<and> (\<forall>k. j < k \<and> k \<le> j + n \<longrightarrow> fgt b (edge w b0 k))))"
  have "P w b L u (L', u')"
  proof (rule advance.raw_induct [where P = P, OF _ assms(1)])
    fix adv w b L u y
    assume IH: "\<And>w b L u y. adv w b L u = Some y \<Longrightarrow> P w b L u y"
      and eq: "(if fgt b (fadd L w) then adv w b (fadd L w) (u + 1) else Some (L, u)) = Some y"
    show "P w b L u y" unfolding P_def
    proof (intro allI impI)
      fix j assume L: "L = edge w b0 j"
      show "\<exists>n. snd y = u + int n \<and> fst y = edge w b0 (j + n)
             \<and> \<not> fgt b (edge w b0 (Suc (j + n)))
             \<and> (\<forall>k. j < k \<and> k \<le> j + n \<longrightarrow> fgt b (edge w b0 k))"
      proof (cases "fgt b (fadd L w)")
        case True
        then have "adv w b (fadd L w) (u + 1) = Some y" using eq by simp
        then have ih: "P w b (fadd L w) (u + 1) y" by (rule IH)
        have "fadd L w = edge w b0 (Suc j)" using L by simp
        with ih have
          "\<exists>n. snd y = u + 1 + int n \<and> fst y = edge w b0 (Suc j + n)
             \<and> \<not> fgt b (edge w b0 (Suc (Suc j + n)))
             \<and> (\<forall>k. Suc j < k \<and> k \<le> Suc j + n \<longrightarrow> fgt b (edge w b0 k))"
          unfolding P_def by blast
        then obtain n where n: "snd y = u + 1 + int n" "fst y = edge w b0 (Suc j + n)"
          "\<not> fgt b (edge w b0 (Suc (Suc j + n)))"
          "\<forall>k. Suc j < k \<and> k \<le> Suc j + n \<longrightarrow> fgt b (edge w b0 k)" by blast
        have e: "fgt b (edge w b0 (Suc j))" using True L by simp
        have "\<forall>k. j < k \<and> k \<le> j + Suc n \<longrightarrow> fgt b (edge w b0 k)"
        proof (intro allI impI)
          fix k assume k: "j < k \<and> k \<le> j + Suc n"
          show "fgt b (edge w b0 k)"
          proof (cases "k = Suc j")
            case True then show ?thesis using e by simp
          next
            case False
            then have "Suc j < k \<and> k \<le> Suc j + n" using k by simp
            then show ?thesis using n(4) by blast
          qed
        qed
        then show ?thesis using n(1,2,3) by (intro exI [of _ "Suc n"]) simp
      next
        case False
        then have "y = (L, u)" using eq by simp
        then show ?thesis using False L by (intro exI [of _ 0]) auto
      qed
    qed
  qed
  then show ?thesis using assms(2) unfolding P_def by simp
qed


lemma sum_list_incr:
  "k < length xs \<Longrightarrow> sum_list (xs[k := xs ! k + 1]) = sum_list xs + (1::int)"
proof (induction xs arbitrary: k)
  case Nil
  then show ?case by simp
next
  case (Cons x xs)
  then show ?case by (cases k) simp_all
qed

lemma count_boundaries_Cons_Inr:
  assumes "count_boundaries w (b # rest) L u hist = Some (Inr hist')"
  obtains L1 u1 where "advance w b L u = Some (L1, u1)"
    "0 \<le> u1 - 1" "u1 - 1 < int (length hist)"
    "count_boundaries w rest L1 u1 (hist[nat (u1 - 1) := hist ! nat (u1 - 1) + 1]) = Some (Inr hist')"
  using assms by (auto split: option.splits if_splits)

lemma count_boundaries_spec:
  assumes "count_boundaries w xs L u hist = Some (Inr hist')"
    "L = edge w b0 j" "u = int j + 1" "sorted_wrt flt xs"
    "\<forall>b\<in>set xs. \<forall>k. 1 \<le> k \<and> k \<le> j \<longrightarrow> fgt b (edge w b0 k)"
  shows "length hist' = length hist
    \<and> (\<forall>i<length hist. hist' ! i = hist ! i + int (length (filter (\<lambda>b. in_cell w b0 b (Suc i)) xs)))
    \<and> (\<forall>b\<in>set xs. \<exists>c. in_cell w b0 b c \<and> c \<le> length hist)
    \<and> sum_list hist' = sum_list hist + int (length xs)"
  using assms
proof (induction xs arbitrary: L u hist j)
  case Nil
  then show ?case by simp
next
  case (Cons b rest)
  from Cons.prems(1) obtain L1 u1 where adv: "advance w b L u = Some (L1, u1)"
    and rng: "0 \<le> u1 - 1" "u1 - 1 < int (length hist)"
    and rec: "count_boundaries w rest L1 u1 (hist[nat (u1 - 1) := hist ! nat (u1 - 1) + 1]) = Some (Inr hist')"
    by (rule count_boundaries_Cons_Inr)
  from advance_edge [OF adv Cons.prems(2)] obtain n where n: "u1 = u + int n"
    "L1 = edge w b0 (j + n)" "\<not> fgt b (edge w b0 (Suc (j + n)))"
    "\<forall>k. j < k \<and> k \<le> j + n \<longrightarrow> fgt b (edge w b0 k)" by blast
  define c where "c = j + n"
  have u1: "u1 = int c + 1" "nat (u1 - 1) = c" using n(1) Cons.prems(3) by (simp_all add: c_def)
  have c: "c < length hist" using rng(2) u1 by simp
  have below: "\<forall>k. 1 \<le> k \<and> k \<le> c \<longrightarrow> fgt b (edge w b0 k)"
  proof (intro allI impI)
    fix k assume k: "1 \<le> k \<and> k \<le> c"
    show "fgt b (edge w b0 k)"
    proof (cases "k \<le> j")
      case True then show ?thesis using Cons.prems(5) k by simp
    next
      case False then show ?thesis using n(4) k by (simp add: c_def)
    qed
  qed
  have "\<not> fgt b (edge w b0 (Suc c))" unfolding c_def by (rule n(3))
  moreover have "\<forall>k\<in>{1..<Suc c}. fgt b (edge w b0 k)" using below by simp
  ultimately have cell: "in_cell w b0 b (Suc c)"
    unfolding in_cell_def by simp
  define hist1 where "hist1 = hist[c := hist ! c + 1]"
  have rec': "count_boundaries w rest L1 u1 hist1 = Some (Inr hist')"
    using rec by (simp add: hist1_def u1)
  have sorted: "sorted_wrt flt rest" and gt: "\<forall>b'\<in>set rest. flt b b'"
    using Cons.prems(4) by simp_all
  have below': "\<forall>b'\<in>set rest. \<forall>k. 1 \<le> k \<and> k \<le> c \<longrightarrow> fgt b' (edge w b0 k)"
  proof (intro ballI allI impI)
    fix b' k assume b': "b' \<in> set rest" and k: "1 \<le> k \<and> k \<le> c"
    have "flt (edge w b0 k) b" using below k by (simp add: fgt_def)
    moreover have "flt b b'" using gt b' by simp
    ultimately show "fgt b' (edge w b0 k)" unfolding fgt_def by (rule flt_trans)
  qed
  have L1: "L1 = edge w b0 c" using n(2) by (simp add: c_def)
  note IH = Cons.IH [OF rec' L1 u1(1) sorted below']
  have len1: "length hist1 = length hist" by (simp add: hist1_def)
  have len: "length hist' = length hist" using IH len1 by simp
  have cnt: "\<forall>i<length hist. hist' ! i
      = hist ! i + int (length (filter (\<lambda>b. in_cell w b0 b (Suc i)) (b # rest)))"
  proof (intro allI impI)
    fix i assume i: "i < length hist"
    have a: "hist' ! i = hist1 ! i + int (length (filter (\<lambda>b. in_cell w b0 b (Suc i)) rest))"
      using IH i len1 by simp
    show "hist' ! i = hist ! i + int (length (filter (\<lambda>b. in_cell w b0 b (Suc i)) (b # rest)))"
    proof (cases "i = c")
      case True
      then show ?thesis using a cell c by (simp add: hist1_def)
    next
      case False
      then have "\<not> in_cell w b0 b (Suc i)" using in_cell_unique [OF cell] by auto
      then show ?thesis using a False by (simp add: hist1_def)
    qed
  qed
  have "\<forall>b'\<in>set rest. \<exists>c. in_cell w b0 b' c \<and> c \<le> length hist"
    using IH len1 by simp
  moreover have "\<exists>c. in_cell w b0 b c \<and> c \<le> length hist"
    using cell c by (intro exI [of _ "Suc c"]) simp
  ultimately have cells: "\<forall>b'\<in>set (b # rest). \<exists>c. in_cell w b0 b' c \<and> c \<le> length hist"
    by simp
  have "sum_list hist1 = sum_list hist + 1"
    unfolding hist1_def using c by (rule sum_list_incr)
  then have sum: "sum_list hist' = sum_list hist + int (length (b # rest))"
    using IH by simp
  show ?case using len cnt cells sum by (intro conjI)
qed


subsection \<open>The cumulative histogram\<close>

lemma accumulate_spec:
  assumes "i + length hs < length cum"
  shows "length (accumulate hs i cum) = length cum
    \<and> (\<forall>k. k \<le> i + length hs \<longrightarrow>
          accumulate hs i cum ! k
            = (if k \<le> i then cum ! k else cum ! i + sum_list (take (k - i) hs)))"
  using assms
proof (induction hs arbitrary: i cum)
  case Nil
  then show ?case by simp
next
  case (Cons h hs)
  define cum' where "cum' = cum[i + 1 := cum ! i + h]"
  have len: "length cum' = length cum" by (simp add: cum'_def)
  have pre: "(i + 1) + length hs < length cum'" using Cons.prems len by simp
  note IH = Cons.IH [OF pre]
  have eq: "accumulate (h # hs) i cum = accumulate hs (i + 1) cum'" by (simp add: cum'_def)
  have "\<forall>k. k \<le> i + length (h # hs) \<longrightarrow>
          accumulate hs (i + 1) cum' ! k
            = (if k \<le> i then cum ! k else cum ! i + sum_list (take (k - i) (h # hs)))"
  proof (intro allI impI)
    fix k assume k: "k \<le> i + length (h # hs)"
    then have k': "k \<le> (i + 1) + length hs" by simp
    from IH k' have r: "accumulate hs (i + 1) cum' ! k
        = (if k \<le> i + 1 then cum' ! k else cum' ! (i + 1) + sum_list (take (k - (i + 1)) hs))"
      by blast
    have c1: "cum' ! (i + 1) = cum ! i + h" using Cons.prems by (simp add: cum'_def)
    show "accumulate hs (i + 1) cum' ! k
            = (if k \<le> i then cum ! k else cum ! i + sum_list (take (k - i) (h # hs)))"
    proof (cases "k \<le> i")
      case True
      then have "cum' ! k = cum ! k" by (simp add: cum'_def)
      then show ?thesis using r True by simp
    next
      case False
      then obtain d where d: "k - i = Suc d" by (cases "k - i") simp_all
      then have kd: "k - (i + 1) = d" by simp
      show ?thesis
      proof (cases "k = i + 1")
        case True
        then show ?thesis using r c1 by simp
      next
        case F: False
        then show ?thesis using r c1 False d kd by simp
      qed
    qed
  qed
  then show ?case unfolding eq using IH len by simp
qed

lemma nondecreasing_nth:
  "nondecreasing xs \<longleftrightarrow> (\<forall>i. Suc i < length xs \<longrightarrow> xs ! i \<le> xs ! Suc i)"
proof (induction xs rule: nondecreasing.induct)
  case (1 a b rest)
  show ?case
  proof
    assume h: "nondecreasing (a # b # rest)"
    then have ab: "a \<le> b" and r: "\<forall>i. Suc i < length (b # rest) \<longrightarrow> (b # rest) ! i \<le> (b # rest) ! Suc i"
      using 1 by simp_all
    show "\<forall>i. Suc i < length (a # b # rest) \<longrightarrow> (a # b # rest) ! i \<le> (a # b # rest) ! Suc i"
    proof (intro allI impI)
      fix i assume i: "Suc i < length (a # b # rest)"
      show "(a # b # rest) ! i \<le> (a # b # rest) ! Suc i"
      proof (cases i)
        case 0 then show ?thesis using ab by simp
      next
        case (Suc i')
        then show ?thesis using r i by simp
      qed
    qed
  next
    assume h: "\<forall>i. Suc i < length (a # b # rest) \<longrightarrow> (a # b # rest) ! i \<le> (a # b # rest) ! Suc i"
    from h [rule_format, of 0] have ab: "a \<le> b" by simp
    have "\<forall>i. Suc i < length (b # rest) \<longrightarrow> (b # rest) ! i \<le> (b # rest) ! Suc i"
    proof (intro allI impI)
      fix i assume "Suc i < length (b # rest)"
      then show "(b # rest) ! i \<le> (b # rest) ! Suc i" using h [rule_format, of "Suc i"] by simp
    qed
    then show "nondecreasing (a # b # rest)" using 1 ab by simp
  qed
qed simp_all

subsection \<open>What New returns\<close>

lemma New_Inr:
  assumes "New bs = Some (Inr bin)"
  shows "2 \<le> length bs"
    and "boundaries bin = bs"
    and "uniformBinWidth bin
          = fdiv (fsub (bs ! (length bs - 1)) (bs ! 0)) (f64_of_int (int (length bs) - 1))"
    and "count_boundaries (uniformBinWidth bin) (interior bs) (bs ! 0) 1
           (replicate (length bs - 1) 0) = Some (Inr (histogram bin))"
    and "cumulativeHistogram bin
          = accumulate (histogram bin) 0 ((replicate (length bs) 0)[0 := 1])"
proof -
  obtain b0 rest where bs: "bs = b0 # rest" using assms by (cases bs) (simp_all add: New_def)
  have chk: "check_increasing 0 b0 rest = None"
    using assms unfolding New_def bs by (simp split: option.splits)
  define bin0 where "bin0 = \<lparr>boundaries = bs, uniformBinWidth = Fin 0, histogram = [],
    cumulativeHistogram = []\<rparr>"
  have pre: "precalculation bin0 = Some (Inr bin)"
    using assms chk unfolding New_def bs bin0_def by simp
  have m: "\<not> int (length bs) - 1 < 1"
    using pre unfolding precalculation_def Let_def bin0_def by (auto split: if_splits)
  then show len: "2 \<le> length bs" by simp
  define w where "w = fdiv (fsub (bs ! (length bs - 1)) (bs ! 0)) (f64_of_int (int (length bs) - 1))"
  have n1: "nat (int (length bs) - 1) = length bs - 1" by simp
  have n2: "nat (int (length bs) - 1) - 1 = length bs - 2" by simp
  have n3: "nat (int (length bs) - 1) + 1 = length bs" using len by (cases bs) simp_all
  have m0: "\<not> int (length bs) - 1 < 0" using m by linarith
  obtain hist where cb: "count_boundaries w (interior bs) (bs ! 0) 1 (replicate (length bs - 1) 0)
        = Some (Inr hist)"
    and bin: "bin = bin0\<lparr>uniformBinWidth := w, histogram := hist,
        cumulativeHistogram := accumulate hist 0 ((replicate (length bs) 0)[0 := 1])\<rparr>"
    using pre m m0 unfolding precalculation_def Let_def w_def interior_def
    by (auto simp add: bin0_def n1 n2 n3 numeral_2_eq_2 split: option.splits sum.splits)
  show "boundaries bin = bs" by (simp add: bin bin0_def)
  show "uniformBinWidth bin
          = fdiv (fsub (bs ! (length bs - 1)) (bs ! 0)) (f64_of_int (int (length bs) - 1))"
    by (simp add: bin w_def)
  show "count_boundaries (uniformBinWidth bin) (interior bs) (bs ! 0) 1
           (replicate (length bs - 1) 0) = Some (Inr (histogram bin))"
    using cb by (simp add: bin)
  show "cumulativeHistogram bin
          = accumulate (histogram bin) 0 ((replicate (length bs) 0)[0 := 1])"
    by (simp add: bin)
qed

lemma interior_sorted:
  assumes "strictly_increasing bs"
  shows "sorted_wrt flt (interior bs)"
  unfolding interior_def
  using strictly_increasing_sorted_wrt [OF assms] by (intro sorted_wrt_take sorted_wrt_drop)

lemma length_interior: "length (interior bs) = length bs - 2"
  by (simp add: interior_def)

lemma precalculation_facts:
  assumes new: "New bs = Some (Inr bin)" and inc: "strictly_increasing bs"
  shows "length (histogram bin) = length bs - 1"
    and "\<forall>i<length bs - 1. histogram bin ! i
          = int (length (filter (\<lambda>b. in_cell (uniformBinWidth bin) (bs ! 0) b (Suc i)) (interior bs)))"
    and "\<forall>b\<in>set (interior bs). \<exists>c. in_cell (uniformBinWidth bin) (bs ! 0) b c \<and> c \<le> length bs - 1"
    and "sum_list (histogram bin) = int (length bs) - 2"
    and "length (cumulativeHistogram bin) = length bs"
    and "\<forall>k\<le>length bs - 1. cumulativeHistogram bin ! k = 1 + sum_list (take k (histogram bin))"
proof -
  note N = New_Inr [OF new]
  have e0: "bs ! 0 = edge (uniformBinWidth bin) (bs ! 0) 0" by simp
  have u0: "(1::int) = int 0 + 1" by simp
  have vac: "\<forall>b\<in>set (interior bs). \<forall>k. 1 \<le> k \<and> k \<le> (0::nat)
      \<longrightarrow> fgt b (edge (uniformBinWidth bin) (bs ! 0) k)" by simp
  note S = count_boundaries_spec [OF N(4) e0 u0 interior_sorted [OF inc] vac]
  show len: "length (histogram bin) = length bs - 1" using S by simp
  show "\<forall>i<length bs - 1. histogram bin ! i
          = int (length (filter (\<lambda>b. in_cell (uniformBinWidth bin) (bs ! 0) b (Suc i)) (interior bs)))"
    using S by simp
  show "\<forall>b\<in>set (interior bs). \<exists>c. in_cell (uniformBinWidth bin) (bs ! 0) b c \<and> c \<le> length bs - 1"
    using S by simp
  show "sum_list (histogram bin) = int (length bs) - 2"
    using S N(1) by (simp add: length_interior sum_list_replicate)
  have pre: "0 + length (histogram bin) < length ((replicate (length bs) (0::int))[0 := 1])"
    using len N(1) by simp
  note A = accumulate_spec [OF pre]
  show "length (cumulativeHistogram bin) = length bs" using A by (simp add: N(5))
  show "\<forall>k\<le>length bs - 1. cumulativeHistogram bin ! k = 1 + sum_list (take k (histogram bin))"
  proof (intro allI impI)
    fix k assume k: "k \<le> length bs - 1"
    then have "k \<le> 0 + length (histogram bin)" using len by simp
    with A have "cumulativeHistogram bin ! k
      = (if k \<le> 0 then (replicate (length bs) 0)[0 := 1] ! k
         else (replicate (length bs) 0)[0 := 1] ! 0 + sum_list (take (k - 0) (histogram bin)))"
      unfolding N(5) by blast
    moreover have "(replicate (length bs) (0::int))[0 := 1] ! 0 = 1"
      using N(1) by (cases bs) simp_all
    ultimately show "cumulativeHistogram bin ! k = 1 + sum_list (take k (histogram bin))"
      by (cases "k = 0") simp_all
  qed
qed

lemma histogram_nonneg:
  assumes "New bs = Some (Inr bin)" "strictly_increasing bs" "i < length bs - 1"
  shows "0 \<le> histogram bin ! i"
  using precalculation_facts(2) [OF assms(1,2)] assms(3) by simp

lemma cumulative_step:
  assumes "New bs = Some (Inr bin)" "strictly_increasing bs" "k < length bs - 1"
  shows "cumulativeHistogram bin ! Suc k = cumulativeHistogram bin ! k + histogram bin ! k"
proof -
  note F = precalculation_facts [OF assms(1,2)]
  have k: "k < length (histogram bin)" using F(1) assms(3) by simp
  have "take (Suc k) (histogram bin) = take k (histogram bin) @ [histogram bin ! k]"
    using k by (rule take_Suc_conv_app_nth)
  then have "sum_list (take (Suc k) (histogram bin))
      = sum_list (take k (histogram bin)) + histogram bin ! k" by simp
  moreover have "cumulativeHistogram bin ! Suc k = 1 + sum_list (take (Suc k) (histogram bin))"
    using F(6) assms(3) by simp
  moreover have "cumulativeHistogram bin ! k = 1 + sum_list (take k (histogram bin))"
    using F(6) assms(3) by simp
  ultimately show ?thesis by simp
qed

section \<open>The validation loop of New\<close>

text \<open>
  The error that New returns carries the values of the first adjacent pair that is not
  increasing, at positions \<open>n\<close> and \<open>n + 1\<close>, and the indices \<open>n - 1\<close> and \<open>n\<close>; New
  returns it exactly when there is such a pair.
\<close>

lemma check_increasing_Some:
  assumes "check_increasing i prev rest = Some e"
  shows "\<exists>n<length rest.
           e = ValidationError ((prev # rest) ! n) ((prev # rest) ! Suc n) (i + int n - 1) (i + int n)
           \<and> fge ((prev # rest) ! n) ((prev # rest) ! Suc n)
           \<and> (\<forall>k<n. \<not> fge ((prev # rest) ! k) ((prev # rest) ! Suc k))"
  using assms
proof (induction rest arbitrary: i prev)
  case Nil
  then show ?case by simp
next
  case (Cons b rest)
  show ?case
  proof (cases "fge prev b")
    case True
    then have "e = ValidationError prev b (i - 1) i" using Cons.prems by simp
    then show ?thesis using True by (intro exI [of _ 0]) simp
  next
    case False
    then have "check_increasing (i + 1) b rest = Some e" using Cons.prems by simp
    from Cons.IH [OF this] obtain n where n: "n < length rest"
      "e = ValidationError ((b # rest) ! n) ((b # rest) ! Suc n) (i + 1 + int n - 1) (i + 1 + int n)"
      "fge ((b # rest) ! n) ((b # rest) ! Suc n)"
      "\<forall>k<n. \<not> fge ((b # rest) ! k) ((b # rest) ! Suc k)" by blast
    have "\<forall>k<Suc n. \<not> fge ((prev # b # rest) ! k) ((prev # b # rest) ! Suc k)"
    proof (intro allI impI)
      fix k assume k: "k < Suc n"
      show "\<not> fge ((prev # b # rest) ! k) ((prev # b # rest) ! Suc k)"
      proof (cases k)
        case 0 then show ?thesis using False by simp
      next
        case (Suc k') then show ?thesis using n(4) k by simp
      qed
    qed
    then show ?thesis using n(1,2,3) by (intro exI [of _ "Suc n"]) (simp add: algebra_simps)
  qed
qed

lemma check_increasing_None:
  "check_increasing i prev rest = None
     \<longleftrightarrow> (\<forall>n<length rest. \<not> fge ((prev # rest) ! n) ((prev # rest) ! Suc n))"
proof (induction rest arbitrary: i prev)
  case Nil
  then show ?case by simp
next
  case (Cons b rest)
  have "(\<forall>n<length (b # rest). \<not> fge ((prev # b # rest) ! n) ((prev # b # rest) ! Suc n))
      \<longleftrightarrow> \<not> fge prev b \<and> (\<forall>n<length rest. \<not> fge ((b # rest) ! n) ((b # rest) ! Suc n))"
    by (auto simp: less_Suc_eq_0_disj)
  then show ?case using Cons.IH [of "i + 1" b] by simp
qed

lemma count_boundaries_failure:
  "count_boundaries w xs L u hist = Some (Inl e) \<Longrightarrow> e = IndexOutOfRange"
proof (induction xs arbitrary: L u hist)
  case Nil
  then show ?case by simp
next
  case (Cons b rest)
  then show ?case by (auto split: option.splits if_splits)
qed

lemma precalculation_failure:
  assumes "precalculation bin = Some (Inl e)"
  shows "e = IndexOutOfRange \<or> e = SliceBoundsOutOfRange"
  using assms unfolding precalculation_def Let_def
  by (auto split: if_splits option.splits sum.splits dest: count_boundaries_failure)

lemma New_error_first_pair:
  assumes "New bs = Some (Inl (ValidationError a b i j))"
  shows "\<exists>n. Suc n < length bs \<and> a = bs ! n \<and> b = bs ! Suc n \<and> fge (bs ! n) (bs ! Suc n)
           \<and> (\<forall>k<n. \<not> fge (bs ! k) (bs ! Suc k))
           \<and> i = int n - 1 \<and> j = int n"
proof -
  obtain b0 rest where bs: "bs = b0 # rest" using assms by (cases bs) (simp_all add: New_def)
  have "check_increasing 0 b0 rest = Some (ValidationError a b i j)"
  proof (cases "check_increasing 0 b0 rest")
    case None
    define bin0 where "bin0 = \<lparr>boundaries = bs, uniformBinWidth = Fin 0, histogram = [],
      cumulativeHistogram = []\<rparr>"
    have "precalculation bin0 = Some (Inl (ValidationError a b i j))"
      using assms None unfolding New_def bs bin0_def by simp
    then show ?thesis using precalculation_failure by blast
  next
    case (Some e)
    then show ?thesis using assms unfolding New_def bs by simp
  qed
  from check_increasing_Some [OF this] show ?thesis unfolding bs by auto
qed


lemma New_error_iff:
  assumes "bs \<noteq> []"
  shows "(\<exists>a b i j. New bs = Some (Inl (ValidationError a b i j)))
     \<longleftrightarrow> (\<exists>n. Suc n < length bs \<and> fge (bs ! n) (bs ! Suc n))"
proof
  assume "\<exists>a b i j. New bs = Some (Inl (ValidationError a b i j))"
  then show "\<exists>n. Suc n < length bs \<and> fge (bs ! n) (bs ! Suc n)"
    using New_error_first_pair by blast
next
  assume r: "\<exists>n. Suc n < length bs \<and> fge (bs ! n) (bs ! Suc n)"
  obtain b0 rest where bs: "bs = b0 # rest" using assms by (cases bs) simp_all
  have "check_increasing 0 b0 rest \<noteq> None"
    using r unfolding bs check_increasing_None by auto
  then obtain e where e: "check_increasing 0 b0 rest = Some e" by blast
  from check_increasing_Some [OF e] obtain a b i j where "e = ValidationError a b i j" by blast
  then have "New bs = Some (Inl (ValidationError a b i j))"
    using e unfolding New_def bs by simp
  then show "\<exists>a b i j. New bs = Some (Inl (ValidationError a b i j))" by blast
qed


section \<open>When the sweep returns\<close>





section \<open>Search on a constructed instance\<close>

subsection \<open>The binary search\<close>



subsection \<open>The switch on the number of boundaries in the cell\<close>






subsection \<open>Counts and positions of the boundaries\<close>


lemma covered_0 [simp]: "\<not> covered w b0 0 b"
  by (simp add: covered_def)











subsection \<open>The branches of Search\<close>










subsection \<open>Search returns when the cell number is in range\<close>



lemma Search_guard:
  assumes "New bs = Some (Inr bin)" "strictly_increasing bs" "list_all is_f64 bs"
    "int (length bs) < 2 ^ 63"
  shows "\<not> fle (uniformBinWidth bin) (Fin 0)"
proof -
  note N = New_Inr [OF assms(1)]
  have "flt (Fin 0) (uniformBinWidth bin)"
    unfolding N(3) using assms(2,3) N(1) assms(4) by (rule width_positive)
  then show ?thesis by (rule flt_not_fle)
qed

lemma Search_ends:
  assumes "\<not> fle (uniformBinWidth bin) (Fin 0)" "2 \<le> length (boundaries bin)"
  shows "flt v (boundaries bin ! 0) \<Longrightarrow> Search conv bin v = Inr 0"
    and "\<not> flt v (boundaries bin ! 0) \<Longrightarrow> fge v (boundaries bin ! (length (boundaries bin) - 1))
          \<Longrightarrow> Search conv bin v = Inr (int (length (boundaries bin)))"
    and "\<not> flt v (boundaries bin ! 0) \<Longrightarrow> \<not> fge v (boundaries bin ! (length (boundaries bin) - 1))
          \<Longrightarrow> Search conv bin v
            = (let q = int_of_f64 conv (fdiv (fsub v (boundaries bin ! 0)) (uniformBinWidth bin))
               in case elem_at (histogram bin) q of
                    Inl e \<Rightarrow> Inl e
                  | Inr h \<Rightarrow> (case elem_at (cumulativeHistogram bin) q of
                       Inl e \<Rightarrow> Inl e
                     | Inr r \<Rightarrow> dispatch bin v h r))"
proof -
  have "0 < length (boundaries bin)" using assms(2) by linarith
  then have e0: "elem_at (boundaries bin) 0 = Inr (boundaries bin ! 0)"
    by (simp add: elem_at_def)
  have n: "nat (int (length (boundaries bin)) - 1) = length (boundaries bin) - 1" by simp
  have em: "elem_at (boundaries bin) (int (length (boundaries bin)) - 1)
      = Inr (boundaries bin ! (length (boundaries bin) - 1))"
    using \<open>0 < length (boundaries bin)\<close> by (simp add: elem_at_def n)
  show "flt v (boundaries bin ! 0) \<Longrightarrow> Search conv bin v = Inr 0"
    using assms(1) e0 by (simp add: Search_def)
  show "\<not> flt v (boundaries bin ! 0) \<Longrightarrow> fge v (boundaries bin ! (length (boundaries bin) - 1))
          \<Longrightarrow> Search conv bin v = Inr (int (length (boundaries bin)))"
    using assms(1) e0 em by (simp add: Search_def)
  show "\<not> flt v (boundaries bin ! 0) \<Longrightarrow> \<not> fge v (boundaries bin ! (length (boundaries bin) - 1))
          \<Longrightarrow> Search conv bin v
            = (let q = int_of_f64 conv (fdiv (fsub v (boundaries bin ! 0)) (uniformBinWidth bin))
               in case elem_at (histogram bin) q of
                    Inl e \<Rightarrow> Inl e
                  | Inr h \<Rightarrow> (case elem_at (cumulativeHistogram bin) q of
                       Inl e \<Rightarrow> Inl e
                     | Inr r \<Rightarrow> dispatch bin v h r))"
    using assms(1) e0 em by (simp add: Search_def Let_def split: sum.splits)
qed



subsection \<open>The guard of Search\<close>

lemma sort_Search_loop_failure:
  assumes "sort_Search_loop f i j = Inl e"
  shows "\<exists>h. f h = Inl e"
  using assms
proof (induction f i j rule: sort_Search_loop.induct)
  case (1 f i j)
  show ?case
  proof (cases "i < j")
    case False
    then show ?thesis using "1.prems" by (simp add: sort_Search_loop.simps)
  next
    case True
    define h where "h = (i + j) div 2"
    show ?thesis
    proof (cases "f h")
      case (Inl e')
      then have "e' = e" using "1.prems" True
        by (subst (asm) sort_Search_loop.simps) (simp add: h_def Let_def)
      then show ?thesis using Inl by blast
    next
      case (Inr t)
      show ?thesis
      proof (cases t)
        case False
        then have "sort_Search_loop f (h + 1) j = Inl e" using "1.prems" True Inr
          by (subst (asm) sort_Search_loop.simps) (simp add: h_def Let_def)
        then show ?thesis using "1.IH"(1) [OF True h_def Inr] False by simp
      next
        case T: True
        then have "sort_Search_loop f i h = Inl e" using "1.prems" True Inr
          by (subst (asm) sort_Search_loop.simps) (simp add: h_def Let_def)
        then show ?thesis using "1.IH"(2) [OF True h_def Inr] T by simp
      qed
    qed
  qed
qed

lemma Search_prepared:
  assumes "New bs = Some (Inr bin)" "strictly_increasing bs" "list_all is_f64 bs"
    "int (length bs) < 2 ^ 63"
  shows "Search conv bin v \<noteq> Inl NotPrepared"
proof -
  note N = New_Inr [OF assms(1)]
  note G = Search_guard [OF assms]
  have l2: "2 \<le> length (boundaries bin)" using N(1,2) by simp
  have d: "dispatch bin v h r \<noteq> Inl NotPrepared" for h r
    unfolding dispatch_def
    by (auto simp: elem_at_def sort_Search_def dest!: sort_Search_loop_failure
        split: sum.splits if_splits)
  consider "flt v (boundaries bin ! 0)"
    | "\<not> flt v (boundaries bin ! 0)" "fge v (boundaries bin ! (length (boundaries bin) - 1))"
    | "\<not> flt v (boundaries bin ! 0)" "\<not> fge v (boundaries bin ! (length (boundaries bin) - 1))"
    by blast
  then show ?thesis
  proof cases
    case 1
    then show ?thesis using Search_ends(1) [OF G l2] by simp
  next
    case 2
    then show ?thesis using Search_ends(2) [OF G l2] by simp
  next
    case 3
    then show ?thesis using Search_ends(3) [OF G l2, of v conv] d
      by (auto simp: Let_def elem_at_def split: sum.splits)
  qed
qed

section \<open>The sweep in exact arithmetic\<close>







lemma cell_edge_0 [simp]: "cell_edge xs 0 = xs ! 0"
  by (simp add: cell_edge_def)






subsection \<open>The cells of the histogram\<close>





subsection \<open>The cell of a value\<close>





section \<open>A decimal example of a misplaced boundary\<close>

text \<open>
  The boundaries 0.6, 0.7, 0.8, 0.9, 1.0, 1.1 (the nearest float64 values): the width
  rounds to 0.10000000000000002, and Search(1.0) is 4, not 5.
\<close>

lemma Search_decimal_boundary_wrong_bin:
  "(case New [round_f64 (6 / 10), round_f64 (7 / 10), round_f64 (8 / 10), round_f64 (9 / 10),
              round_f64 1, round_f64 (11 / 10)] of
      Some (Inr bin) \<Rightarrow> (histogram bin, Search conv bin (round_f64 1))
    | _ \<Rightarrow> ([], Inl NotPrepared))
   = ([1, 0, 1, 1, 1], Inr 4)"
  by (simp add: new_eval search_eval f64_eval) (simp add: eval_nat_numeral)

section \<open>Boundary: the range of the index\<close>

text \<open>
  C9. For a Bin holding m+1 boundaries and every integer i, Boundary(i) returns
  boundaries[i] when 0 <= i <= m, and fails, with the index-out-of-range panic,
  exactly when i is outside [0, m].
\<close>

theorem Boundary_in_range_iff:
  "(0 \<le> i \<and> i \<le> int (length (boundaries bin)) - 1
      \<longrightarrow> Boundary bin i = Inr (boundaries bin ! nat i))
   \<and> ((\<exists>e. Boundary bin i = Inl e) = (\<not> (0 \<le> i \<and> i \<le> int (length (boundaries bin)) - 1)))
   \<and> (\<forall>e. Boundary bin i = Inl e \<longrightarrow> e = IndexOutOfRange)"
  by (auto simp: Boundary_def elem_at_def)

theorem Boundary_in_range_iff_witness:
  "Boundary paper_bin 3 = Inr (Fin 20) \<and> Boundary paper_bin 0 = Inr (Fin 2)
   \<and> Boundary paper_bin 7 = Inr (Fin 30)
   \<and> Boundary paper_bin 8 = Inl IndexOutOfRange \<and> Boundary paper_bin (- 1) = Inl IndexOutOfRange"
  using Boundary_in_range_iff [of 3 paper_bin] Boundary_in_range_iff [of 0 paper_bin]
    Boundary_in_range_iff [of 7 paper_bin] Boundary_in_range_iff [of 8 paper_bin]
    Boundary_in_range_iff [of "- 1" paper_bin]
  by (auto simp add: paper_bin_def paper_boundaries_def)

section \<open>The reference case\<close>

lemma Search_paper_low:
  "Search conv paper_bin (Fin (- 4)) = Inr 0" "Search conv paper_bin (Fin 0) = Inr 0"
  "Search conv paper_bin (Fin 2) = Inr 1" "Search conv paper_bin (round_f64 (105 / 10)) = Inr 1"
  unfolding paper_bin_def paper_boundaries_def
  by (simp_all add: search_eval f64_eval)

lemma Search_paper_mid:
  "Search conv paper_bin (round_f64 (132 / 10)) = Inr 2" "Search conv paper_bin (round_f64 (189 / 10)) = Inr 2"
  "Search conv paper_bin (round_f64 (199 / 10)) = Inr 3" "Search conv paper_bin (Fin 20) = Inr 4"
  unfolding paper_bin_def paper_boundaries_def
  by (simp_all add: search_eval f64_eval)

lemma Search_paper_high:
  "Search conv paper_bin (round_f64 (299 / 10)) = Inr 7" "Search conv paper_bin (Fin 30) = Inr 8"
  "Search conv paper_bin (Fin 99) = Inr 8"
  unfolding paper_bin_def paper_boundaries_def
  by (simp_all add: search_eval f64_eval)

text \<open>
  C6. For the boundaries [2, 11, 19, 20, 21, 27, 29, 30] construction succeeds with
  uniformBinWidth = 4, histogram = [0,0,1,0,3,0,2] and cumulativeHistogram =
  [1,1,1,2,2,5,5,7], and search(-4)=0, search(0)=0, search(2)=1, search(10.5)=1,
  search(13.2)=2, search(18.9)=2, search(19.9)=3, search(20)=4, search(29.9)=7,
  search(30)=8, search(99)=8. A decimal literal denotes the float64 nearest to it.
\<close>

theorem paper_reference_case:
  "New [Fin 2, Fin 11, Fin 19, Fin 20, Fin 21, Fin 27, Fin 29, Fin 30] = Some (Inr paper_bin)
   \<and> uniformBinWidth paper_bin = Fin 4
   \<and> histogram paper_bin = [0, 0, 1, 0, 3, 0, 2]
   \<and> cumulativeHistogram paper_bin = [1, 1, 1, 2, 2, 5, 5, 7]
   \<and> Search conv paper_bin (Fin (- 4)) = Inr 0
   \<and> Search conv paper_bin (Fin 0) = Inr 0
   \<and> Search conv paper_bin (Fin 2) = Inr 1
   \<and> Search conv paper_bin (round_f64 (105 / 10)) = Inr 1
   \<and> Search conv paper_bin (round_f64 (132 / 10)) = Inr 2
   \<and> Search conv paper_bin (round_f64 (189 / 10)) = Inr 2
   \<and> Search conv paper_bin (round_f64 (199 / 10)) = Inr 3
   \<and> Search conv paper_bin (Fin 20) = Inr 4
   \<and> Search conv paper_bin (round_f64 (299 / 10)) = Inr 7
   \<and> Search conv paper_bin (Fin 30) = Inr 8
   \<and> Search conv paper_bin (Fin 99) = Inr 8"
  using New_paper Search_paper_low Search_paper_mid Search_paper_high
  by (simp add: paper_bin_def paper_boundaries_def)

section \<open>Validation in New\<close>

text \<open>
  C8 (the code departs from it). The claim: the ValidationError carries the two
  violating values boundaries[j], boundaries[j+1] and their indices j and j+1. For
  [2, 11, 5, 20] the first offending pair is at j = 1; the error carries the values
  11 and 5, and the indices 0 and 1 instead of 1 and 2.
\<close>

theorem New_error_indices_off_by_one:
  "New [Fin 2, Fin 11, Fin 5, Fin 20] = Some (Inl (ValidationError (Fin 11) (Fin 5) 0 1))"
  by (simp add: new_eval f64_eval)

text \<open>
  C10, as claimed: for a single-element sequence New returns success and yields an
  instance with an empty histogram. It does not: the slice expression
  \<^verbatim>\<open>bin.boundaries[1:m]\<close> panics for m = 0.
\<close>

theorem New_singleton_no_instance:
  "New [Fin 5] = Some (Inl SliceBoundsOutOfRange)"
  by (simp add: new_eval)

text \<open>
  C10, amended: New does not enforce the minimum input length of 2 by a
  ValidationError. For every single-element boundary sequence the validation loop
  finds nothing to reject, and precalculation then panics (slice bounds out of range),
  so that no instance is produced.
\<close>

theorem New_singleton_panics:
  "New [x] = Some (Inl SliceBoundsOutOfRange)"
  by (simp add: new_eval)

section \<open>Rounding defeats the sweep and the search\<close>

text \<open>
  C5 (the code departs from it). The claim: New returns an error iff the sequence is
  not strictly increasing, and otherwise returns a fully precalculated instance. The
  five boundaries \<open>2^52 + {0, 1, 2, 9, 10}\<close> are representable and strictly increasing;
  the width is 2.5, each addition \<^verbatim>\<open>lowestBound + uniformBinWidth\<close> rounds to an
  advance of 2, the sweep reaches uniform cell 5 of 4 for the boundary \<open>2^52 + 9\<close>,
  and \<^verbatim>\<open>bin.histogram[uniformBinNumber-1]\<close> panics.
\<close>

theorem New_panics_on_increasing_input:
  "strictly_increasing [Fin (2^52), Fin (2^52 + 1), Fin (2^52 + 2), Fin (2^52 + 9), Fin (2^52 + 10)]
   \<and> list_all is_f64 [Fin (2^52), Fin (2^52 + 1), Fin (2^52 + 2), Fin (2^52 + 9), Fin (2^52 + 10)]
   \<and> New [Fin (2^52), Fin (2^52 + 1), Fin (2^52 + 2), Fin (2^52 + 9), Fin (2^52 + 10)]
       = Some (Inl IndexOutOfRange)"
  by (simp add: new_eval f64_eval)

text \<open>
  C7 (the code departs from it). The claim: Search never fails on an instance built
  by New, for any finite value. For the boundaries [-1, 0, 2^53] the total width
  \<open>2^53 + 1\<close> rounds to \<open>2^53\<close> and the cell width is \<open>2^52\<close>; for the value
  \<open>2^53 - 1\<close>, below the last boundary, the uniform cell number is 3 of 2 and the
  read of the histogram panics.
\<close>

theorem Search_panics_on_finite_value:
  "New [Fin (- 1), Fin 0, Fin (2^53)]
     = Some (Inr \<lparr>boundaries = [Fin (- 1), Fin 0, Fin (2^53)], uniformBinWidth = Fin (2^52),
          histogram = [1, 0], cumulativeHistogram = [1, 2, 2]\<rparr>)
   \<and> list_all is_f64 [Fin (- 1), Fin 0, Fin (2^53)] \<and> is_f64 (Fin (2^53 - 1))
   \<and> Search conv \<lparr>boundaries = [Fin (- 1), Fin 0, Fin (2^53)], uniformBinWidth = Fin (2^52),
          histogram = [1, 0], cumulativeHistogram = [1, 2, 2]\<rparr> (Fin (2^53 - 1))
       = Inl IndexOutOfRange"
  by (simp add: new_eval search_eval f64_eval) (simp add: eval_nat_numeral)

text \<open>
  C2 (the code departs from it). The claim: Search(boundaries[i]) = i + 1. For the
  boundaries \<open>2^52 + {0, 3, 4, 5, 6}\<close> the width is 1.5 and the sweep, whose additions
  round to even, counts the boundary \<open>2^52 + 3\<close> in cell 2, while Search computes
  cell 3 for it: Search(boundaries[1]) is 3, not 2.
\<close>

theorem Search_boundary_wrong_bin:
  "list_all is_f64 [Fin (2^52), Fin (2^52 + 3), Fin (2^52 + 4), Fin (2^52 + 5), Fin (2^52 + 6)]
   \<and> New [Fin (2^52), Fin (2^52 + 3), Fin (2^52 + 4), Fin (2^52 + 5), Fin (2^52 + 6)]
     = Some (Inr \<lparr>boundaries = [Fin (2^52), Fin (2^52 + 3), Fin (2^52 + 4), Fin (2^52 + 5),
            Fin (2^52 + 6)],
          uniformBinWidth = Fin (3 / 2), histogram = [0, 2, 1, 0],
          cumulativeHistogram = [1, 1, 3, 4, 4]\<rparr>)
   \<and> Search conv \<lparr>boundaries = [Fin (2^52), Fin (2^52 + 3), Fin (2^52 + 4), Fin (2^52 + 5),
            Fin (2^52 + 6)],
          uniformBinWidth = Fin (3 / 2), histogram = [0, 2, 1, 0],
          cumulativeHistogram = [1, 1, 3, 4, 4]\<rparr> (Fin (2^52 + 3))
       = Inr 3"
  by (simp add: new_eval search_eval f64_eval) (simp add: eval_nat_numeral)

section \<open>The invariants of a constructed instance\<close>

text \<open>
  Every instance that New returns for strictly increasing float64 boundaries has a
  positive width, a cumulative histogram of length m+1 that starts at 1 and does not
  decrease, and counts each interior boundary once. The length of a Go slice fits an
  int.
\<close>

lemma New_instance_invariants:
  assumes "New bs = Some (Inr bin)" "strictly_increasing bs" "list_all is_f64 bs"
    "int (length bs) < 2 ^ 63"
  shows "flt (Fin 0) (uniformBinWidth bin)
    \<and> length (cumulativeHistogram bin) = length bs
    \<and> cumulativeHistogram bin ! 0 = 1
    \<and> nondecreasing (cumulativeHistogram bin)
    \<and> cumulativeHistogram bin ! (length bs - 1) - cumulativeHistogram bin ! 0
        = int (length bs) - 2"
proof -
  note N = New_Inr [OF assms(1)]
  note F = precalculation_facts [OF assms(1,2)]
  have w: "flt (Fin 0) (uniformBinWidth bin)"
    unfolding N(3) using assms(2,3) N(1) assms(4) by (rule width_positive)
  have c0: "cumulativeHistogram bin ! 0 = 1" using F(6) by simp
  have nd: "nondecreasing (cumulativeHistogram bin)"
    unfolding nondecreasing_nth
  proof (intro allI impI)
    fix i assume "Suc i < length (cumulativeHistogram bin)"
    then have i: "i < length bs - 1" using F(5) by simp
    have "0 \<le> histogram bin ! i" using assms(1,2) i by (rule histogram_nonneg)
    then show "cumulativeHistogram bin ! i \<le> cumulativeHistogram bin ! Suc i"
      using cumulative_step [OF assms(1,2) i] by simp
  qed
  have "take (length bs - 1) (histogram bin) = histogram bin" using F(1) by simp
  then have "cumulativeHistogram bin ! (length bs - 1) = 1 + sum_list (histogram bin)"
    using F(6) by simp
  then have last: "cumulativeHistogram bin ! (length bs - 1) - cumulativeHistogram bin ! 0
      = int (length bs) - 2" using c0 F(4) by simp
  show ?thesis using w F(5) c0 nd last by (intro conjI)
qed

text \<open>
  C3 (the code departs from it). The claim: for every strictly increasing boundary
  sequence of length m+1 the instance produced by New has uniformBinWidth > 0 and a
  non-decreasing cumulativeHistogram of length m+1 with cumulativeHistogram[0] = 1 and
  cumulativeHistogram[m] - cumulativeHistogram[0] = m-1. The five boundaries
  \<open>2^52 + {0, 1, 3, 9, 10}\<close> are representable and strictly increasing, and New
  produces no instance for them: the width is 2.5, each addition
  \<^verbatim>\<open>lowestBound + uniformBinWidth\<close> rounds to an advance of 2, the sweep reaches uniform
  cell 5 of 4 for the boundary \<open>2^52 + 9\<close>, and the read of the histogram panics.
\<close>

theorem New_produces_no_instance:
  "strictly_increasing [Fin (2^52), Fin (2^52 + 1), Fin (2^52 + 3), Fin (2^52 + 9), Fin (2^52 + 10)]
   \<and> list_all is_f64 [Fin (2^52), Fin (2^52 + 1), Fin (2^52 + 3), Fin (2^52 + 9), Fin (2^52 + 10)]
   \<and> New [Fin (2^52), Fin (2^52 + 1), Fin (2^52 + 3), Fin (2^52 + 9), Fin (2^52 + 10)]
       = Some (Inl IndexOutOfRange)"
  by (simp add: new_eval f64_eval)

section \<open>The histogram\<close>





section \<open>The bin index that Search returns\<close>





end
